theory Spec2Isabelle
  imports Main "HOL-Library.Word" "HOL-Library.Sublist"
begin

unbundle bit_operations_syntax

section \<open>Bytes, character classes and C strings\<close>

text \<open>
  The scanner of \<^verbatim>\<open>token.c\<close> reads a buffer of C \<^verbatim>\<open>char\<close>s. A byte is a
  \<^typ>\<open>char\<close>; the buffer is the list of the bytes of the array that \<^verbatim>\<open>d->buf\<close>
  points to, terminator and any bytes after it included.
\<close>

abbreviation NUL :: char where
  "NUL \<equiv> CHR 0x00"

abbreviation newline :: char where
  "newline \<equiv> CHR 0x0A"

abbreviation backslash :: char where
  "backslash \<equiv> CHR 0x5C"

abbreviation backtick :: char where
  "backtick \<equiv> CHR 0x60"

text \<open>
  \<^verbatim>\<open>char\<close> is signed in the source (its comment: \<^verbatim>\<open>c < 0\<close> is
  \<^verbatim>\<open>((unsigned char) c) > 127\<close>).
\<close>

definition char_negative :: "char \<Rightarrow> bool" where
  "char_negative c = ((128::nat) \<le> of_char c)"

text \<open>The classes of \<^verbatim>\<open><ctype.h>\<close> in the C locale.\<close>

definition isspace :: "char \<Rightarrow> bool" where
  "isspace c = (c = CHR '' '' \<or> ((9::nat) \<le> of_char c \<and> of_char c \<le> (13::nat)))"

definition isdigit :: "char \<Rightarrow> bool" where
  "isdigit c = ((48::nat) \<le> of_char c \<and> of_char c \<le> (57::nat))"

definition isalpha :: "char \<Rightarrow> bool" where
  "isalpha c = (((65::nat) \<le> of_char c \<and> of_char c \<le> (90::nat))
     \<or> ((97::nat) \<le> of_char c \<and> of_char c \<le> (122::nat)))"

definition isalnum :: "char \<Rightarrow> bool" where
  "isalnum c = (isalpha c \<or> isdigit c)"

text \<open>
  Modelled from the spec: \<^verbatim>\<open>isnum\<close> of \<^verbatim>\<open>utils.h\<close>, which is not among the
  sources; the spec's number rule reads it as "an ASCII digit".
\<close>

definition isnum :: "char \<Rightarrow> bool" where
  "isnum c = isdigit c"

text \<open>
  The C string that starts at offset \<open>i\<close> of the array: the bytes up to the first NUL.
  (Where the array holds no NUL at or after \<open>i\<close> the C functions would read past the
  array; the list then ends the string. In a buffer of \<open>prsr_init_token\<close> the
  terminator stands at \<open>len\<close>.)
\<close>

definition c_string :: "char list \<Rightarrow> int \<Rightarrow> char list" where
  "c_string b i = takeWhile (\<lambda>c. c \<noteq> NUL) (drop (nat i) b)"

definition strlen :: "char list \<Rightarrow> int" where
  "strlen b = int (length (c_string b 0))"

fun find_sub :: "char list \<Rightarrow> char list \<Rightarrow> nat option" where
  "find_sub needle [] = (if needle = [] then Some 0 else None)"
| "find_sub needle (x # xs) =
     (if prefix needle (x # xs) then Some 0 else map_option Suc (find_sub needle xs))"

text \<open>
  \<^verbatim>\<open>strstr(b + search, needle)\<close> and \<^verbatim>\<open>strchr(b + s, c)\<close> (for \<open>c\<close> other than NUL),
  as the offset in \<open>b\<close> of the first match; \<open>None\<close> is \<^verbatim>\<open>NULL\<close>.
\<close>

definition strstr :: "char list \<Rightarrow> int \<Rightarrow> char list \<Rightarrow> int option" where
  "strstr b search needle =
     map_option (\<lambda>k. search + int k) (find_sub needle (c_string b search))"

definition strchr :: "char list \<Rightarrow> int \<Rightarrow> char \<Rightarrow> int option" where
  "strchr b s c = map_option (\<lambda>k. s + int k) (find_sub [c] (c_string b s))"

text \<open>
  \<^verbatim>\<open>strchr("...", c) != NULL\<close> on a string literal: \<^verbatim>\<open>strchr\<close> also finds the
  literal's terminator.
\<close>

definition strchr_lit :: "string \<Rightarrow> char \<Rightarrow> bool" where
  "strchr_lit s c = (c \<in> set s \<or> c = NUL)"

section \<open>The scanner state and the tokens\<close>

text \<open>
  Modelled from the spec: the token kinds of \<^verbatim>\<open>types.h\<close>, which is not among the
  sources (the spec's closed set of kinds). \<open>TOKEN_UNKNOWN\<close> is the type \<^verbatim>\<open>-1\<close> that
  \<^verbatim>\<open>eat_token\<close> stores when no rule matches: the only type with \<^verbatim>\<open>type < 0\<close>.
\<close>

datatype token_type =
    TOKEN_EOF | TOKEN_COMMENT | TOKEN_SEMICOLON | TOKEN_OP | TOKEN_COLON | TOKEN_BRACE
  | TOKEN_ARRAY | TOKEN_PAREN | TOKEN_TERNARY | TOKEN_CLOSE | TOKEN_STRING | TOKEN_REGEXP
  | TOKEN_NUMBER | TOKEN_DOT | TOKEN_SPREAD | TOKEN_ARROW | TOKEN_T_BRACE | TOKEN_LIT
  | TOKEN_COMMA | TOKEN_UNKNOWN

definition type_negative :: "token_type \<Rightarrow> bool" where
  "type_negative t = (t = TOKEN_UNKNOWN)"

text \<open>
  Modelled from the spec: the declaration of \<^verbatim>\<open>tokendef\<close>. The \<^verbatim>\<open>token.h\<close> that this
  \<^verbatim>\<open>token.c\<close> includes is not among the sources (the header under \<^verbatim>\<open>src/src\<close>
  declares another version of the structure). The fields are the ones \<^verbatim>\<open>token.c\<close> uses,
  which are the ones of the spec's scanner state: \<^verbatim>\<open>int\<close> fields as \<^typ>\<open>int\<close> (no input
  here comes near \<^verbatim>\<open>INT_MAX\<close> bytes), \<^verbatim>\<open>depth\<close> wide enough to hold
  \<^verbatim>\<open>__STACK_SIZE\<close>, and the stack as the array of 32-bit words that \<^verbatim>\<open>stack_inc\<close> and
  \<^verbatim>\<open>stack_dec\<close> index with \<^verbatim>\<open>depth >> 5\<close>.
\<close>

record tokendef =
  buf :: "char list"
  curr :: int
  len :: int
  line_no :: int
  flag :: nat
  depth :: nat
  stack :: "32 word list"

text \<open>\<^verbatim>\<open>eat_out\<close>: what \<^verbatim>\<open>_CONSUME(len, type)\<close> stores.\<close>

record eat_out =
  eo_len :: int
  eo_type :: token_type

text \<open>
  Modelled from the spec: the declaration of \<^verbatim>\<open>token\<close> (of the missing \<^verbatim>\<open>types.h\<close>),
  with the fields that \<^verbatim>\<open>prsr_next_token\<close> stores; \<open>tok_p\<close> is the pointer
  \<^verbatim>\<open>out->p\<close> as an offset from \<^verbatim>\<open>d->buf\<close>.
\<close>

record token =
  tok_p :: int
  tok_len :: int
  tok_type :: token_type
  tok_line_no :: int
  lit_next_colon :: bool

text \<open>
  Modelled from the spec: the declaration of \<^verbatim>\<open>tokenvalue\<close>, the caller's oracle
  \<^verbatim>\<open>tv.check(tv.context)\<close>. The callback may change what its context points to, so
  here it returns the context it leaves behind with its answer.
\<close>

record 'c tokenvalue =
  tv_check :: "'c \<Rightarrow> int \<times> 'c"
  tv_context :: 'c

definition FLAG__PENDING_T_BRACE :: nat where
  "FLAG__PENDING_T_BRACE = 1"

definition FLAG__RESUME_LIT :: nat where
  "FLAG__RESUME_LIT = 2"

text \<open>
  Modelled from the spec: \<^verbatim>\<open>__STACK_SIZE\<close>, whose definition is not among the sources
  ("the source uses 256 entries"); the stack array then has 8 words.
\<close>

definition STACK_SIZE :: nat where
  "STACK_SIZE = 256"

section \<open>The helpers of eat\_token\<close>

definition peek_char :: "tokendef \<Rightarrow> int \<Rightarrow> char" where
  "peek_char d l = (let out = curr d + l in if out < len d then buf d ! nat out else NUL)"

definition stack_inc :: "tokendef \<Rightarrow> bool \<Rightarrow> int \<times> tokendef" where
  "stack_inc d t_brace =
     (if depth d = STACK_SIZE then (- 1, d)
      else
        let i = drop_bit 5 (depth d);
            setb = push_bit (depth d AND 31) (1 :: 32 word);
            w = stack d ! i;
            d = d\<lparr>stack := (stack d)[i := (if t_brace then w OR setb else w AND NOT setb)]\<rparr>
        in (0, d\<lparr>depth := depth d + 1\<rparr>))"

definition stack_dec :: "tokendef \<Rightarrow> int \<times> tokendef" where
  "stack_dec d =
     (if depth d = 0 then (- 1, d)
      else
        let d = d\<lparr>depth := depth d - 1\<rparr>;
            w = stack d ! drop_bit 5 (depth d);
            chk = push_bit (depth d AND 31) (1 :: 32 word)
        in if w AND chk = 0 then (0, d) else (1, d))"

section \<open>The scanning loops of eat\_token\<close>

text \<open>
  The newline count of a long comment: \<^verbatim>\<open>for (;;) { newline = strchr(newline, '\n');
  if (!newline || newline >= at) break; ++d->line_no; ++newline; }\<close>.
\<close>

lemma find_sub_bound: "find_sub needle xs = Some k \<Longrightarrow> k + length needle \<le> length xs"
proof (induction xs arbitrary: k)
  case Nil
  then show ?case by (simp split: if_splits)
next
  case (Cons x xs)
  show ?case
  proof (cases "prefix needle (x # xs)")
    case True
    with Cons.prems have "k = 0" by simp
    with prefix_length_le [OF True] show ?thesis by simp
  next
    case False
    with Cons.prems obtain j where "find_sub needle xs = Some j" "k = Suc j" by auto
    with Cons.IH [of j] show ?thesis by simp
  qed
qed

lemma strchr_ge: "strchr b s c = Some nl \<Longrightarrow> s \<le> nl"
  by (auto simp: strchr_def)

lemma strstr_ge: "strstr b s needle = Some at \<Longrightarrow> s \<le> at"
  by (auto simp: strstr_def)

function count_newlines :: "tokendef \<Rightarrow> int \<Rightarrow> int \<Rightarrow> tokendef" where
  "count_newlines d nl at =
     (case strchr (buf d) nl newline of
        None \<Rightarrow> d
      | Some nl' \<Rightarrow>
          if at \<le> nl' then d
          else count_newlines (d\<lparr>line_no := line_no d + 1\<rparr>) (nl' + 1) at)"
  by pat_completeness auto
termination
  by (relation "measure (\<lambda>(d, nl, at). nat (at - nl))") (auto dest: strchr_ge)

declare count_newlines.simps [simp del]

text \<open>
  The comment rule (\<^verbatim>\<open>do { ... } while (0)\<close>): \<open>None\<close> is its \<^verbatim>\<open>break\<close>, the
  fall through to the rules below.
\<close>

definition eat_comment :: "tokendef \<Rightarrow> char \<Rightarrow> char \<Rightarrow> (tokendef \<times> eat_out) option" where
  "eat_comment d c next =
     (if c = CHR ''/'' \<and> (next = CHR ''/'' \<or> next = CHR ''*'') then
        (let needle = (if next = CHR ''/'' then [newline] else ''*/'');
             search = curr d + 2
         in case strstr (buf d) search needle of
              None \<Rightarrow> Some (d, \<lparr>eo_len = len d - curr d, eo_type = TOKEN_COMMENT\<rparr>)
            | Some at \<Rightarrow>
                (let l = at - search + 2
                 in if next = CHR ''/'' then Some (d, \<lparr>eo_len = l, eo_type = TOKEN_COMMENT\<rparr>)
                    else Some (count_newlines d search at,
                               \<lparr>eo_len = l + 2, eo_type = TOKEN_COMMENT\<rparr>)))
      else None)"

text \<open>
  The \<^verbatim>\<open>switch (c)\<close> of the simple characters; \<open>None\<close> when no case matches. The
  third component is \<open>None\<close> where the source returns before \<^verbatim>\<open>_CONSUME\<close>.
\<close>

definition eat_simple :: "tokendef \<Rightarrow> char \<Rightarrow> (int \<times> tokendef \<times> eat_out option) option" where
  "eat_simple d c =
     (if c = CHR '';'' then Some (0, d, Some \<lparr>eo_len = 1, eo_type = TOKEN_SEMICOLON\<rparr>)
      else if c = CHR ''?'' then Some (0, d, Some \<lparr>eo_len = 1, eo_type = TOKEN_TERNARY\<rparr>)
      else if c = CHR '':'' then Some (0, d, Some \<lparr>eo_len = 1, eo_type = TOKEN_COLON\<rparr>)
      else if c = CHR '','' then Some (0, d, Some \<lparr>eo_len = 1, eo_type = TOKEN_COMMA\<rparr>)
      else if c = CHR ''('' then
        (let (r, d') = stack_inc d False
         in Some (r, d', Some \<lparr>eo_len = 1, eo_type = TOKEN_PAREN\<rparr>))
      else if c = CHR ''['' then
        (let (r, d') = stack_inc d False
         in Some (r, d', Some \<lparr>eo_len = 1, eo_type = TOKEN_ARRAY\<rparr>))
      else if c = CHR ''{'' then
        (let (r, d') = stack_inc d False
         in Some (r, d', Some \<lparr>eo_len = 1, eo_type = TOKEN_BRACE\<rparr>))
      else if c = CHR '')'' then
        (let (r, d') = stack_dec d
         in Some (r, d', Some \<lparr>eo_len = 1, eo_type = TOKEN_CLOSE\<rparr>))
      else if c = CHR '']'' then
        (let (r, d') = stack_dec d
         in Some (r, d', Some \<lparr>eo_len = 1, eo_type = TOKEN_CLOSE\<rparr>))
      else if c = CHR ''}'' then
        (let (ret, d') = stack_dec d
         in if ret < 0 then Some (ret, d', None)
            else if 0 < ret then
              Some (0, d'\<lparr>flag := FLAG__RESUME_LIT\<rparr>,
                    Some \<lparr>eo_len = 1, eo_type = TOKEN_CLOSE\<rparr>)
            else Some (0, d', Some \<lparr>eo_len = 1, eo_type = TOKEN_CLOSE\<rparr>))
      else None)"

text \<open>
  The run of equal operator characters:
  \<^verbatim>\<open>while (len < allowed) { c = peek_char(d, ++len); if (c != start) break; }\<close>.
\<close>

function op_run :: "tokendef \<Rightarrow> char \<Rightarrow> int \<Rightarrow> int \<Rightarrow> char \<Rightarrow> int \<times> char" where
  "op_run d start allowed l c =
     (if l < allowed then
        (let l' = l + 1; c' = peek_char d l'
         in if c' = start then op_run d start allowed l' c' else (l', c'))
      else (l, c))"
  by pat_completeness auto
termination
  by (relation "measure (\<lambda>(d, start, allowed, l, c). nat (allowed - l))") auto

declare op_run.simps [simp del]

text \<open>
  The operator rule after the oracle has been asked; \<open>None\<close> is the \<^verbatim>\<open>break\<close> on a
  character that starts no operator.
\<close>

definition op_allowed :: "char \<Rightarrow> int option" where
  "op_allowed c =
     (if strchr_lit ''=&|^~!%/+-'' c then Some 1
      else if c = CHR ''*'' \<or> c = CHR ''<'' then Some 2
      else if c = CHR ''>'' then Some 3
      else None)"

definition eat_op :: "tokendef \<Rightarrow> char \<Rightarrow> eat_out option" where
  "eat_op d start =
     (case op_allowed start of
        None \<Rightarrow> None
      | Some allowed \<Rightarrow>
          (let (l, c) = op_run d start allowed 0 start
           in if start = CHR ''='' \<and> c = CHR ''>'' then
                Some \<lparr>eo_len = 2, eo_type = TOKEN_ARROW\<rparr>
              else if c = start \<and> strchr_lit ''+-|&'' start then
                Some \<lparr>eo_len = l + 1, eo_type = TOKEN_OP\<rparr>
              else if c = CHR ''='' then
                (let l' = l + 1; c' = peek_char d l'
                 in if c' = CHR ''='' \<and> (start = CHR ''='' \<or> start = CHR ''!'') then
                      Some \<lparr>eo_len = l' + 1, eo_type = TOKEN_OP\<rparr>
                    else Some \<lparr>eo_len = l', eo_type = TOKEN_OP\<rparr>)
              else Some \<lparr>eo_len = l, eo_type = TOKEN_OP\<rparr>))"

text \<open>The line count inside a token: \<^verbatim>\<open>if (c == '\n') { ++d->line_no; }\<close>.\<close>

definition count_line :: "tokendef \<Rightarrow> char \<Rightarrow> tokendef" where
  "count_line d c = (if c = newline then d\<lparr>line_no := line_no d + 1\<rparr> else d)"

lemma count_line_fields [simp]:
  "buf (count_line d c) = buf d" "curr (count_line d c) = curr d" "len (count_line d c) = len d"
  "flag (count_line d c) = flag d" "depth (count_line d c) = depth d"
  "stack (count_line d c) = stack d"
  by (simp_all add: count_line_def)

lemma peek_char_count_line [simp]: "peek_char (count_line d c) k = peek_char d k"
  by (simp add: peek_char_def Let_def)

lemma peek_char_in_range: "peek_char d k \<noteq> NUL \<Longrightarrow> curr d + k < len d"
  by (simp add: peek_char_def Let_def split: if_splits)

lemma isalnum_not_NUL: "isalnum c \<Longrightarrow> c \<noteq> NUL"
  by (auto simp: isalnum_def isalpha_def isdigit_def)

lemma peek_char_alnum: "isalnum (peek_char d k) \<Longrightarrow> curr d + k < len d"
  by (rule peek_char_in_range) (auto dest: isalnum_not_NUL)

lemma peek_char_dot: "peek_char d k = CHR ''.'' \<Longrightarrow> curr d + k < len d"
  by (rule peek_char_in_range) simp

text \<open>
  The string loop \<^verbatim>\<open>while ((c = peek_char(d, ++len))) { ... }\<close>, entered with
  \<^verbatim>\<open>len = 0\<close> on an opening quote and with \<^verbatim>\<open>len = -1\<close> on resumption; it returns
  the state and the final \<^verbatim>\<open>len\<close>.
\<close>

function string_loop :: "tokendef \<Rightarrow> char \<Rightarrow> int \<Rightarrow> tokendef \<times> int" where
  "string_loop d start l =
     (let l1 = l + 1; c = peek_char d l1
      in if c = NUL then (d, l1)
         else if c = start then (d, l1 + 1)
         else if c = backslash then
           (let l2 = l1 + 1; c' = peek_char d l2
            in string_loop (count_line d c') start l2)
         else if start = backtick \<and> c = CHR ''$'' \<and> peek_char d (l1 + 1) = CHR ''{'' then
           (d\<lparr>flag := FLAG__PENDING_T_BRACE\<rparr>, l1)
         else string_loop (count_line d c) start l1)"
  by pat_completeness auto
termination
  by (relation "measure (\<lambda>(d, start, l). nat (len d - curr d - l))")
     (auto dest!: peek_char_in_range)

declare string_loop.simps [simp del]

text \<open>
  The number loop \<^verbatim>\<open>for (;;) { if (!(isalnum(c) || c == '.')) break;
  c = peek_char(d, ++len); }\<close>.
\<close>

function number_loop :: "tokendef \<Rightarrow> int \<Rightarrow> char \<Rightarrow> int" where
  "number_loop d l c =
     (if isalnum c \<or> c = CHR ''.'' then (let l' = l + 1 in number_loop d l' (peek_char d l'))
      else l)"
  by pat_completeness auto
termination
  by (relation "measure (\<lambda>(d, l, c).
        if isalnum c \<or> c = CHR ''.'' then Suc (nat (len d - curr d - l)) else 0)")
     (auto dest: peek_char_alnum peek_char_dot split: if_splits)

declare number_loop.simps [simp del]

text \<open>The flags of a regexp: \<^verbatim>\<open>while (isalnum(c)) { c = peek_char(d, ++len); }\<close>.\<close>

function alnum_loop :: "tokendef \<Rightarrow> int \<Rightarrow> char \<Rightarrow> int" where
  "alnum_loop d l c =
     (if isalnum c then (let l' = l + 1 in alnum_loop d l' (peek_char d l')) else l)"
  by pat_completeness auto
termination
  by (relation "measure (\<lambda>(d, l, c). if isalnum c then Suc (nat (len d - curr d - l)) else 0)")
     (auto dest: peek_char_alnum split: if_splits)

declare alnum_loop.simps [simp del]

text \<open>
  The body of a regexp, \<^verbatim>\<open>do { ... } while (c)\<close>, from the byte after the opening
  slash; it returns the state, \<^verbatim>\<open>len\<close> and \<^verbatim>\<open>c\<close> as the flags loop finds them.
\<close>

function regexp_loop :: "tokendef \<Rightarrow> bool \<Rightarrow> int \<Rightarrow> char \<Rightarrow> tokendef \<times> int \<times> char" where
  "regexp_loop d is_charexpr l c =
     (if c = CHR ''['' then
        (let l' = l + 1; c' = peek_char d l'
         in if c' = NUL then (d, l', c') else regexp_loop d True l' c')
      else if c = CHR '']'' then
        (let l' = l + 1; c' = peek_char d l'
         in if c' = NUL then (d, l', c') else regexp_loop d False l' c')
      else if c = backslash then
        (let l1 = l + 1; c1 = peek_char d l1;
             l' = l1 + 1; c' = peek_char d l'
         in if c' = NUL then (count_line d c1, l', c')
            else regexp_loop (count_line d c1) is_charexpr l' c')
      else if \<not> is_charexpr \<and> c = CHR ''/'' then
        (let l' = l + 1 in (d, l', peek_char d l'))
      else
        (let l' = l + 1; c' = peek_char d l'
         in if c' = NUL then (count_line d c, l', c')
            else regexp_loop (count_line d c) is_charexpr l' c'))"
  by pat_completeness auto
termination
  by (relation "measure (\<lambda>(d, is_charexpr, l, c). nat (len d - curr d - l))")
     (auto dest!: peek_char_in_range)

declare regexp_loop.simps [simp del]

text \<open>
  Inside a literal, after a backslash and one skipped byte have met an opening brace:
  \<^verbatim>\<open>while (c && c != '}') { c = peek_char(d, ++len); }\<close>.
\<close>

function brace_loop :: "tokendef \<Rightarrow> int \<Rightarrow> char \<Rightarrow> int \<times> char" where
  "brace_loop d l c =
     (if c = NUL \<or> c = CHR ''}'' then (l, c)
      else (let l' = l + 1 in brace_loop d l' (peek_char d l')))"
  by pat_completeness auto
termination
  by (relation "measure (\<lambda>(d, l, c).
        if c = NUL \<or> c = CHR ''}'' then 0 else Suc (nat (len d - curr d - l)))")
     (auto dest!: peek_char_in_range split: if_splits)

declare brace_loop.simps [simp del]

lemma brace_loop_peek:
  "brace_loop d l c = (l', c') \<Longrightarrow> c = peek_char d l \<Longrightarrow> c' = peek_char d l' \<and> l \<le> l'"
proof (induction d l c rule: brace_loop.induct)
  case (1 d l c)
  show ?case
  proof (cases "c = NUL \<or> c = CHR ''}''")
    case True
    with "1.prems" (1) have "l' = l" and "c' = c"
      by (auto simp: brace_loop.simps [of d l c])
    with "1.prems" (2) show ?thesis by simp
  next
    case False
    from "1.prems" (1) False have "brace_loop d (l + 1) (peek_char d (l + 1)) = (l', c')"
      by (subst (asm) brace_loop.simps) (simp add: Let_def)
    with "1.IH" [OF False refl] have "c' = peek_char d l' \<and> l + 1 \<le> l'" by simp
    then show ?thesis by simp
  qed
qed

text \<open>
  The literal loop \<^verbatim>\<open>do { ... } while (c)\<close>; each \<^verbatim>\<open>continue\<close> goes to the test
  \<^verbatim>\<open>while (c)\<close>. It returns the final \<^verbatim>\<open>len\<close>.
\<close>

function lit_loop :: "tokendef \<Rightarrow> int \<Rightarrow> char \<Rightarrow> int" where
  "lit_loop d l c =
     (if c = backslash then
        (let l1 = l + 2; c1 = peek_char d l1
         in if c1 = CHR ''{'' then
              (let (l2, c2) = brace_loop d l1 c1; l3 = l2 + 1
               in if c2 = NUL then l3 else lit_loop d l3 c2)
            else if c1 = NUL then l1 else lit_loop d l1 c1)
      else
        (let valid = ((if l = 0 then isalpha c else isalnum c)
                      \<or> c = CHR ''$'' \<or> c = CHR ''_'' \<or> char_negative c)
         in if valid then
              (let l' = l + 1; c' = peek_char d l' in if c' = NUL then l' else lit_loop d l' c')
            else l))"
  by pat_completeness auto
termination
proof (relation "measure (\<lambda>(d, l, c). nat (len d - curr d - l))", goal_cases)
  case 1
  show ?case by simp
next
  case (2 d l c l1 c1 p l2 c2 l3)
  from 2 have "brace_loop d l1 c1 = (l2, c2)" and "c1 = peek_char d l1" by simp_all
  from brace_loop_peek [OF this] have "c2 = peek_char d l2" "l1 \<le> l2" by simp_all
  with 2 peek_char_in_range [of d l2] show ?case by simp
next
  case (3 d l c l1 c1)
  with peek_char_in_range [of d l1] show ?case by simp
next
  case (4 d l c valid l' c')
  with peek_char_in_range [of d l'] show ?case by simp
qed

declare lit_loop.simps [simp del]

section \<open>eat\_token\<close>

text \<open>
  The rules below the operator rule, in the source's order: strings, number, dot
  notation, regexp, literals, and the final \<^verbatim>\<open>_CONSUME(0, -1)\<close>. All return 0.
\<close>

definition eat_tail :: "tokendef \<Rightarrow> char \<Rightarrow> char \<Rightarrow> tokendef \<times> eat_out" where
  "eat_tail d c next =
     (if c = CHR 0x27 \<or> c = CHR 0x22 \<or> c = backtick then
        (let (d', l) = string_loop d c 0 in (d', \<lparr>eo_len = l, eo_type = TOKEN_STRING\<rparr>))
      else if isnum c \<or> (c = CHR ''.'' \<and> isnum next) then
        (d, \<lparr>eo_len = number_loop d 1 next, eo_type = TOKEN_NUMBER\<rparr>)
      else if c = CHR ''.'' then
        (if next = CHR ''.'' \<and> peek_char d 2 = CHR ''.'' then
           (d, \<lparr>eo_len = 3, eo_type = TOKEN_SPREAD\<rparr>)
         else (d, \<lparr>eo_len = 1, eo_type = TOKEN_DOT\<rparr>))
      else if c = CHR ''/'' then
        (let (d', l, c') = regexp_loop d False 1 next
         in (d', \<lparr>eo_len = alnum_loop d' l c', eo_type = TOKEN_REGEXP\<rparr>))
      else
        (let l = lit_loop d 0 c
         in if l = 0 then (d, \<lparr>eo_len = 0, eo_type = TOKEN_UNKNOWN\<rparr>)
            else (d, \<lparr>eo_len = l, eo_type = TOKEN_LIT\<rparr>)))"

text \<open>
  The operator rule (\<^verbatim>\<open>do { ... } while (0)\<close>) with the rules after it. On a slash
  the oracle is called first; a negative answer is returned before any \<^verbatim>\<open>_CONSUME\<close>.
\<close>

definition eat_ops :: "tokendef \<Rightarrow> char \<Rightarrow> char \<Rightarrow> 'c \<Rightarrow> int \<times> tokendef \<times> eat_out option \<times> 'c" where
  "eat_ops d c next ctx =
     (case eat_op d c of
        Some eo \<Rightarrow> (0, d, Some eo, ctx)
      | None \<Rightarrow> (let (d', eo) = eat_tail d c next in (0, d', Some eo, ctx)))"

definition eat_slash_or_ops ::
    "tokendef \<Rightarrow> char \<Rightarrow> char \<Rightarrow> 'c tokenvalue \<Rightarrow> int \<times> tokendef \<times> eat_out option \<times> 'c" where
  "eat_slash_or_ops d c next tv =
     (if c = CHR ''/'' then
        (let (has_value, ctx') = tv_check tv (tv_context tv)
         in if has_value < 0 then (has_value, d, None, ctx')
            else if has_value = 0 then
              (let (d', eo) = eat_tail d c next in (0, d', Some eo, ctx'))
            else eat_ops d c next ctx')
      else eat_ops d c next (tv_context tv))"

text \<open>
  \<^verbatim>\<open>eat_token\<close>: the return value, the state, what was stored into \<^verbatim>\<open>*eat\<close>
  (\<open>None\<close> when the source returns without \<^verbatim>\<open>_CONSUME\<close>), and the oracle's context.
\<close>

definition eat_token :: "tokendef \<Rightarrow> 'c tokenvalue \<Rightarrow> int \<times> tokendef \<times> eat_out option \<times> 'c" where
  "eat_token d0 tv =
     (let flag0 = flag d0;
          d = d0\<lparr>flag := 0\<rparr>;
          c = peek_char d 0
      in if c = NUL then
           ((if 0 < depth d then 1 else 0), d,
            Some \<lparr>eo_len = 0, eo_type = TOKEN_EOF\<rparr>, tv_context tv)
         else if flag0 AND FLAG__PENDING_T_BRACE \<noteq> 0 then
           (let (r, d') = stack_inc d True
            in (r, d', Some \<lparr>eo_len = 2, eo_type = TOKEN_T_BRACE\<rparr>, tv_context tv))
         else if flag0 AND FLAG__RESUME_LIT \<noteq> 0 then
           (let (d', l) = string_loop d backtick (- 1)
            in (0, d', Some \<lparr>eo_len = l, eo_type = TOKEN_STRING\<rparr>, tv_context tv))
         else
           (let next = peek_char d 1
            in case eat_comment d c next of
                 Some (d', eo) \<Rightarrow> (0, d', Some eo, tv_context tv)
               | None \<Rightarrow>
                   (case eat_simple d c of
                      Some (r, d', eo) \<Rightarrow> (r, d', eo, tv_context tv)
                    | None \<Rightarrow> eat_slash_or_ops d c next tv)))"

section \<open>prsr\_next\_token\<close>

text \<open>
  \<^verbatim>\<open>lookahead_char\<close> and the whitespace loop of \<^verbatim>\<open>prsr_next_token\<close> read
  \<^verbatim>\<open>d->buf\<close> without \<^verbatim>\<open>peek_char\<close>'s test against \<^verbatim>\<open>len\<close>. A read outside the
  array is undefined behaviour: \<open>None\<close>.
\<close>

definition byte_at :: "char list \<Rightarrow> int \<Rightarrow> char option" where
  "byte_at b i = (if 0 \<le> i \<and> i < int (length b) then Some (b ! nat i) else None)"

lemma byte_at_Some: "byte_at b i = Some c \<Longrightarrow> 0 \<le> i \<and> i < int (length b)"
  by (simp add: byte_at_def split: if_splits)

text \<open>\<^verbatim>\<open>for (;; ++p) { if (!isspace(*p)) break; }\<close>\<close>

function skip_space :: "char list \<Rightarrow> int \<Rightarrow> int option" where
  "skip_space b p =
     (case byte_at b p of
        None \<Rightarrow> None
      | Some c \<Rightarrow> if isspace c then skip_space b (p + 1) else Some p)"
  by pat_completeness auto
termination
  by (relation "measure (\<lambda>(b, p). nat (int (length b) - p))") (auto dest: byte_at_Some)

declare skip_space.simps [simp del]

lemma skip_space_ge: "skip_space b p = Some q \<Longrightarrow> p \<le> q"
proof (induction b p rule: skip_space.induct)
  case (1 b p)
  from "1.prems" obtain c where c: "byte_at b p = Some c"
    by (subst (asm) skip_space.simps) (auto split: option.splits)
  show ?case
  proof (cases "isspace c")
    case True
    with "1.prems" c have "skip_space b (p + 1) = Some q"
      by (subst (asm) skip_space.simps) simp
    with "1.IH" [OF c True] show ?thesis by simp
  next
    case False
    with "1.prems" c show ?thesis by (subst (asm) skip_space.simps) simp
  qed
qed

text \<open>
  The outer loop of \<^verbatim>\<open>lookahead_char\<close>, from the pointer \<^verbatim>\<open>p\<close> (an offset). The
  \<^verbatim>\<open>strstr\<close> of a comment needs a terminator somewhere after \<^verbatim>\<open>p + 2\<close>.
\<close>

function lookahead_from :: "char list \<Rightarrow> int \<Rightarrow> char option" where
  "lookahead_from b p0 =
     (case skip_space b p0 of
        None \<Rightarrow> None
      | Some p \<Rightarrow>
          (case byte_at b p of
             None \<Rightarrow> None
           | Some c \<Rightarrow>
               if c = CHR ''/'' then
                 (case byte_at b (p + 1) of
                    None \<Rightarrow> None
                  | Some next \<Rightarrow>
                      if next = CHR ''/'' \<or> next = CHR ''*'' then
                        (if NUL \<in> set (drop (nat (p + 2)) b) then
                           (case strstr b (p + 2) (if next = CHR ''/'' then [newline] else ''*/'') of
                              None \<Rightarrow> Some NUL
                            | Some at \<Rightarrow>
                                lookahead_from b (if next = CHR ''/'' then at + 1 else at + 2))
                         else None)
                      else Some c)
               else Some c))"
  by pat_completeness auto
termination
  by (relation "measure (\<lambda>(b, p). nat (int (length b) - p))")
     (auto dest!: skip_space_ge byte_at_Some strstr_ge)

declare lookahead_from.simps [simp del]

definition lookahead_char :: "tokendef \<Rightarrow> char option" where
  "lookahead_char d =
     (if flag d AND FLAG__RESUME_LIT \<noteq> 0 then Some backtick
      else lookahead_from (buf d) (curr d))"

text \<open>
  The whitespace loop: \<^verbatim>\<open>for (char c;; ++d->curr) { c = d->buf[d->curr];
  if (c == '\n') ++d->line_no; else if (!isspace(c)) break; }\<close>.
\<close>

function skip_ws :: "tokendef \<Rightarrow> tokendef option" where
  "skip_ws d =
     (case byte_at (buf d) (curr d) of
        None \<Rightarrow> None
      | Some c \<Rightarrow>
          if c = newline then skip_ws (d\<lparr>line_no := line_no d + 1, curr := curr d + 1\<rparr>)
          else if isspace c then skip_ws (d\<lparr>curr := curr d + 1\<rparr>)
          else Some d)"
  by pat_completeness auto
termination
  by (relation "measure (\<lambda>d. nat (int (length (buf d)) - curr d))") (auto dest: byte_at_Some)

declare skip_ws.simps [simp del]

text \<open>
  \<^verbatim>\<open>prsr_next_token(d, out, tv)\<close>: the return value, the state, the token slot and the
  oracle's context after the call; \<open>None\<close> when the call reads outside the array (or
  would read an \<^verbatim>\<open>eat_out\<close> that was never stored).
\<close>

definition prsr_next_token ::
    "tokendef \<Rightarrow> token \<Rightarrow> 'c tokenvalue \<Rightarrow> (int \<times> tokendef \<times> token \<times> 'c) option" where
  "prsr_next_token d0 out0 tv =
     (case skip_ws d0 of
        None \<Rightarrow> None
      | Some d1 \<Rightarrow>
          (let out1 = out0\<lparr>tok_line_no := line_no d1\<rparr>;
               (ret, d2, eo_opt, ctx) = eat_token d1 tv
           in if ret < 0 then Some (ret, d2, out1, ctx)
              else
                (case eo_opt of
                   None \<Rightarrow> None
                 | Some eo \<Rightarrow>
                     if type_negative (eo_type eo) then Some (curr d2, d2, out1, ctx)
                     else
                       (let out2 = out1\<lparr>tok_p := curr d2, tok_len := eo_len eo,
                                         tok_type := eo_type eo\<rparr>;
                            d3 = d2\<lparr>curr := curr d2 + eo_len eo\<rparr>
                        in if eo_type eo = TOKEN_LIT then
                             (case lookahead_char d3 of
                                None \<Rightarrow> None
                              | Some next \<Rightarrow>
                                  Some (0, d3, out2\<lparr>lit_next_colon := (next = CHR '':'')\<rparr>, ctx))
                           else Some (0, d3, out2\<lparr>lit_next_colon := False\<rparr>, ctx)))))"

text \<open>
  \<^verbatim>\<open>prsr_init_token(p)\<close>: \<^verbatim>\<open>bzero\<close>, then the buffer, \<^verbatim>\<open>strlen(p)\<close> and line 1.
\<close>

definition prsr_init_token :: "char list \<Rightarrow> tokendef" where
  "prsr_init_token p =
     \<lparr>buf = p, curr = 0, len = strlen p, line_no = 1, flag = 0, depth = 0,
      stack = replicate (STACK_SIZE div 32) 0\<rparr>"

section \<open>A caller's loop\<close>

text \<open>
  The token stream of a caller that calls \<^verbatim>\<open>prsr_next_token\<close> until it returns
  non-zero or stores an EOF token, at most \<open>n\<close> times, passing the oracle's context on:
  the list of each call's return value and token slot. \<open>None\<close> when the calls run out
  or one reads outside the array.
\<close>

fun token_stream ::
    "nat \<Rightarrow> tokendef \<Rightarrow> token \<Rightarrow> 'c tokenvalue \<Rightarrow> (int \<times> token) list option" where
  "token_stream 0 d out tv = None"
| "token_stream (Suc n) d out tv =
     (case prsr_next_token d out tv of
        None \<Rightarrow> None
      | Some (ret, d', out', ctx') \<Rightarrow>
          if ret = 0 \<and> tok_type out' \<noteq> TOKEN_EOF then
            map_option ((#) (ret, out')) (token_stream n d' out' (tv\<lparr>tv_context := ctx'\<rparr>))
          else Some [(ret, out')])"

text \<open>An empty token slot, and oracles that always give the same answer.\<close>

definition empty_token :: token where
  "empty_token =
     \<lparr>tok_p = 0, tok_len = 0, tok_type = TOKEN_UNKNOWN, tok_line_no = 0, lit_next_colon = False\<rparr>"

definition const_oracle :: "int \<Rightarrow> nat tokenvalue" where
  "const_oracle r = \<lparr>tv_check = (\<lambda>n. (r, Suc n)), tv_context = 0\<rparr>"

text \<open>
  The state, the token slot and the oracle's context after \<open>n\<close> calls of
  \<^verbatim>\<open>prsr_next_token\<close>, whatever they return.
\<close>

fun after_calls ::
    "nat \<Rightarrow> tokendef \<Rightarrow> token \<Rightarrow> 'c tokenvalue \<Rightarrow> (tokendef \<times> token \<times> 'c) option" where
  "after_calls 0 d out tv = Some (d, out, tv_context tv)"
| "after_calls (Suc n) d out tv =
     (case prsr_next_token d out tv of
        None \<Rightarrow> None
      | Some (ret, d', out', ctx') \<Rightarrow> after_calls n d' out' (tv\<lparr>tv_context := ctx'\<rparr>))"

section \<open>The hard failures\<close>

text \<open>
  The three hard failures of the specification, as conditions on the state in which
  \<^verbatim>\<open>eat_token\<close> is entered (after the whitespace loop): a push at full depth, a
  closing bracket at depth 0, and a negative answer of the oracle on a slash that starts
  no comment.
\<close>

definition no_flag :: "tokendef \<Rightarrow> bool" where
  "no_flag d = (flag d AND FLAG__PENDING_T_BRACE = 0 \<and> flag d AND FLAG__RESUME_LIT = 0)"

definition stack_overflow :: "tokendef \<Rightarrow> bool" where
  "stack_overflow d =
     (depth d = STACK_SIZE \<and> peek_char d 0 \<noteq> NUL \<and>
      (flag d AND FLAG__PENDING_T_BRACE \<noteq> 0 \<or>
       (no_flag d \<and> (peek_char d 0 = CHR ''('' \<or> peek_char d 0 = CHR ''['' \<or> peek_char d 0 = CHR ''{''))))"

definition unbalanced_close :: "tokendef \<Rightarrow> bool" where
  "unbalanced_close d =
     (depth d = 0 \<and> no_flag d \<and>
      (peek_char d 0 = CHR '')'' \<or> peek_char d 0 = CHR '']'' \<or> peek_char d 0 = CHR ''}''))"

definition oracle_failure :: "tokendef \<Rightarrow> 'c tokenvalue \<Rightarrow> bool" where
  "oracle_failure d tv =
     (no_flag d \<and> peek_char d 0 = CHR ''/'' \<and> peek_char d 1 \<noteq> CHR ''/'' \<and> peek_char d 1 \<noteq> CHR ''*''
      \<and> fst (tv_check tv (tv_context tv)) < 0)"

text \<open>
  The entry that the next pop reads carries the template bit: the group was opened by the
  brace of a substitution.
\<close>

definition template_bit_on_top :: "tokendef \<Rightarrow> bool" where
  "template_bit_on_top d =
     (0 < depth d \<and>
      stack d ! drop_bit 5 (depth d - 1) AND push_bit ((depth d - 1) AND 31) (1 :: 32 word) \<noteq> 0)"

text \<open>The fields that no scanning loop changes.\<close>

definition frame :: "tokendef \<Rightarrow> char list \<times> int \<times> int \<times> nat \<times> 32 word list" where
  "frame d = (buf d, curr d, len d, depth d, stack d)"

text \<open>A token slot in one line: kind, offset, length, line and the label hint.\<close>

definition tok :: "token_type \<Rightarrow> int \<Rightarrow> int \<Rightarrow> int \<Rightarrow> bool \<Rightarrow> token" where
  "tok t p l n c = \<lparr>tok_p = p, tok_len = l, tok_type = t, tok_line_no = n, lit_next_colon = c\<rparr>"

section \<open>Facts about the whitespace loop and eat\_token\<close>


lemma peek_char_flag [simp]: "peek_char (d\<lparr>flag := f\<rparr>) k = peek_char d k"
  by (simp add: peek_char_def Let_def)

lemma byte_at_drop: "byte_at b i = Some c \<Longrightarrow> drop (nat i) b = c # drop (nat (i + 1)) b"
  by (auto simp: byte_at_def nat_add_distrib Cons_nth_drop_Suc split: if_splits)

lemma isspace_newline [simp]: "isspace newline"
  by (simp add: isspace_def)

lemma skip_ws_spec:
  "skip_ws d = Some d' \<Longrightarrow>
     d' = d\<lparr>line_no := line_no d + int (count_list (takeWhile isspace (drop (nat (curr d)) (buf d))) newline),
            curr := curr d + int (length (takeWhile isspace (drop (nat (curr d)) (buf d))))\<rparr>"
proof (induction d rule: skip_ws.induct)
  case (1 d)
  from "1.prems" obtain c where c: "byte_at (buf d) (curr d) = Some c"
    by (subst (asm) skip_ws.simps) (auto split: option.splits)
  note dr = byte_at_drop [OF c]
  consider (nl) "c = newline" | (sp) "c \<noteq> newline" "isspace c" | (stop) "c \<noteq> newline" "\<not> isspace c"
    by blast
  then show ?case
  proof cases
    case nl
    with "1.prems" c have "skip_ws (d\<lparr>line_no := line_no d + 1, curr := curr d + 1\<rparr>) = Some d'"
      by (subst (asm) skip_ws.simps) simp
    from "1.IH" (1) [OF c nl this] nl dr show ?thesis by simp
  next
    case sp
    with "1.prems" c have "skip_ws (d\<lparr>curr := curr d + 1\<rparr>) = Some d'"
      by (subst (asm) skip_ws.simps) simp
    from "1.IH" (2) [OF c sp this] sp dr show ?thesis by simp
  next
    case stop
    with "1.prems" c have "d' = d"
      by (subst (asm) skip_ws.simps) simp
    with stop dr show ?thesis by simp
  qed
qed

lemma skip_ws_stop:
  "skip_ws d = Some d' \<Longrightarrow> \<exists>c. byte_at (buf d') (curr d') = Some c \<and> \<not> isspace c"
proof (induction d rule: skip_ws.induct)
  case (1 d)
  from "1.prems" obtain c where c: "byte_at (buf d) (curr d) = Some c"
    by (subst (asm) skip_ws.simps) (auto split: option.splits)
  consider (nl) "c = newline" | (sp) "c \<noteq> newline" "isspace c" | (stop) "c \<noteq> newline" "\<not> isspace c"
    by blast
  then show ?case
  proof cases
    case nl
    with "1.prems" c have "skip_ws (d\<lparr>line_no := line_no d + 1, curr := curr d + 1\<rparr>) = Some d'"
      by (subst (asm) skip_ws.simps) simp
    from "1.IH" (1) [OF c nl this] show ?thesis .
  next
    case sp
    with "1.prems" c have "skip_ws (d\<lparr>curr := curr d + 1\<rparr>) = Some d'"
      by (subst (asm) skip_ws.simps) simp
    from "1.IH" (2) [OF c sp this] show ?thesis .
  next
    case stop
    with "1.prems" c have "d' = d"
      by (subst (asm) skip_ws.simps) simp
    with stop c show ?thesis by simp
  qed
qed

lemma eat_comment_Some:
  "eat_comment d c next = Some r \<Longrightarrow> c = CHR ''/'' \<and> (next = CHR ''/'' \<or> next = CHR ''*'')"
  by (simp add: eat_comment_def split: if_splits)

lemma eat_comment_None:
  "eat_comment d c next = None \<Longrightarrow> \<not> (c = CHR ''/'' \<and> (next = CHR ''/'' \<or> next = CHR ''*''))"
  by (auto simp: eat_comment_def Let_def split: if_splits option.splits)

lemma eat_simple_ret:
  "eat_simple d c = Some (r, d', eo) \<Longrightarrow>
     (r < 0 \<longleftrightarrow>
        ((c = CHR ''('' \<or> c = CHR ''['' \<or> c = CHR ''{'') \<and> depth d = STACK_SIZE) \<or>
        ((c = CHR '')'' \<or> c = CHR '']'' \<or> c = CHR ''}'') \<and> depth d = 0))
     \<and> (0 \<le> r \<longrightarrow> eo \<noteq> None \<and> eo_type (the eo) \<noteq> TOKEN_UNKNOWN \<and> eo_type (the eo) \<noteq> TOKEN_EOF)"
  by (auto simp: eat_simple_def stack_inc_def stack_dec_def Let_def split: if_splits)

lemma eat_simple_type:
  "eat_simple d c = Some (r, d', Some e) \<Longrightarrow>
     eo_len e = 1 \<and> eo_type e \<noteq> TOKEN_UNKNOWN \<and> eo_type e \<noteq> TOKEN_EOF \<and> eo_type e \<noteq> TOKEN_LIT"
  by (auto simp: eat_simple_def stack_inc_def stack_dec_def Let_def split: if_splits)

lemma eat_simple_Some_chars:
  "eat_simple d c = Some r \<Longrightarrow> c \<noteq> CHR ''/''"
  by (auto simp: eat_simple_def split: if_splits)

lemma eat_simple_None:
  "eat_simple d c = None \<Longrightarrow>
     c \<noteq> CHR ''('' \<and> c \<noteq> CHR ''['' \<and> c \<noteq> CHR ''{'' \<and> c \<noteq> CHR '')'' \<and> c \<noteq> CHR '']'' \<and> c \<noteq> CHR ''}''"
  by (auto simp: eat_simple_def Let_def split: if_splits prod.splits)

lemma eat_ops_ret:
  "eat_ops d c next ctx = (r, d', eo, ctx') \<Longrightarrow> r = 0 \<and> eo \<noteq> None \<and> ctx' = ctx"
proof (cases "eat_op d c")
  case None
  assume "eat_ops d c next ctx = (r, d', eo, ctx')"
  with None show ?thesis by (auto simp: eat_ops_def split: prod.splits)
next
  case (Some a)
  assume "eat_ops d c next ctx = (r, d', eo, ctx')"
  with Some have "r = 0" "eo = Some a" "ctx' = ctx" by (simp_all add: eat_ops_def)
  then show ?thesis by simp
qed

lemma eat_slash_or_ops_ret:
  "eat_slash_or_ops d c next tv = (r, d', eo, ctx') \<Longrightarrow>
     (r < 0 \<longleftrightarrow> c = CHR ''/'' \<and> fst (tv_check tv (tv_context tv)) < 0)
     \<and> (0 \<le> r \<longrightarrow> r = 0 \<and> eo \<noteq> None)"
  by (auto simp: eat_slash_or_ops_def Let_def split: if_splits prod.splits dest: eat_ops_ret)

lemma eat_token_ret:
  assumes "eat_token d tv = (r, d', eo, ctx')"
  shows "(r < 0 \<longleftrightarrow> stack_overflow d \<or> unbalanced_close d \<or> oracle_failure d tv)"
    and "0 \<le> r \<Longrightarrow> eo \<noteq> None"
proof -
  let ?c = "peek_char d 0"
  let ?d = "d\<lparr>flag := 0\<rparr>"
  consider (eof) "?c = NUL"
    | (pending) "?c \<noteq> NUL" "flag d AND FLAG__PENDING_T_BRACE \<noteq> 0"
    | (resume) "?c \<noteq> NUL" "flag d AND FLAG__PENDING_T_BRACE = 0" "flag d AND FLAG__RESUME_LIT \<noteq> 0"
    | (comment) r' where "?c \<noteq> NUL" "no_flag d" "eat_comment ?d ?c (peek_char d 1) = Some r'"
    | (simple) r' where "?c \<noteq> NUL" "no_flag d" "eat_comment ?d ?c (peek_char d 1) = None"
        "eat_simple ?d ?c = Some r'"
    | (rest) "?c \<noteq> NUL" "no_flag d" "eat_comment ?d ?c (peek_char d 1) = None"
        "eat_simple ?d ?c = None"
    unfolding no_flag_def by (cases "eat_comment ?d ?c (peek_char d 1)"; cases "eat_simple ?d ?c") auto
  then have "(r < 0 \<longleftrightarrow> stack_overflow d \<or> unbalanced_close d \<or> oracle_failure d tv) \<and> (0 \<le> r \<longrightarrow> eo \<noteq> None)"
  proof cases
    case eof
    with assms show ?thesis
      by (auto simp: eat_token_def Let_def stack_overflow_def unbalanced_close_def oracle_failure_def
            split: if_splits)
  next
    case pending
    with assms show ?thesis
      by (auto simp: eat_token_def Let_def stack_inc_def stack_overflow_def unbalanced_close_def
            oracle_failure_def no_flag_def split: if_splits)
  next
    case resume
    with assms show ?thesis
      by (auto simp: eat_token_def Let_def stack_overflow_def unbalanced_close_def
            oracle_failure_def no_flag_def split: prod.splits)
  next
    case comment
    from eat_comment_Some [OF comment(3)] comment assms show ?thesis
      by (auto simp: eat_token_def Let_def stack_overflow_def unbalanced_close_def
            oracle_failure_def no_flag_def split: prod.splits)
  next
    case simple
    obtain r1 d1 eo1 where r': "r' = (r1, d1, eo1)" by (cases r') auto
    with simple assms have eq: "r = r1" "eo = eo1"
      by (auto simp: eat_token_def Let_def no_flag_def)
    from eat_simple_ret [OF simple(4) [unfolded r']] eat_simple_Some_chars [OF simple(4)] simple eq
    show ?thesis
      by (auto simp: stack_overflow_def unbalanced_close_def oracle_failure_def no_flag_def)
  next
    case rest
    with assms have "eat_slash_or_ops ?d ?c (peek_char d 1) tv = (r, d', eo, ctx')"
      by (auto simp: eat_token_def Let_def no_flag_def)
    from eat_slash_or_ops_ret [OF this] eat_simple_None [OF rest(4)] eat_comment_None [OF rest(3)] rest
    show ?thesis
      by (auto simp: stack_overflow_def unbalanced_close_def oracle_failure_def no_flag_def)
  qed
  then show "(r < 0 \<longleftrightarrow> stack_overflow d \<or> unbalanced_close d \<or> oracle_failure d tv)"
    and "0 \<le> r \<Longrightarrow> eo \<noteq> None" by simp_all
qed


lemma eat_comment_type: "eat_comment d c next = Some (d', eo) \<Longrightarrow> eo_type eo = TOKEN_COMMENT"
  by (auto simp: eat_comment_def Let_def split: if_splits option.splits)

lemma eat_op_type: "eat_op d c = Some eo \<Longrightarrow> eo_type eo = TOKEN_OP \<or> eo_type eo = TOKEN_ARROW"
  by (auto simp: eat_op_def Let_def split: if_splits option.splits prod.splits)

lemma eat_tail_unknown:
  "eat_tail d c next = (d', eo) \<Longrightarrow> eo_type eo = TOKEN_UNKNOWN \<Longrightarrow> d' = d \<and> eo_len eo = 0"
  by (auto simp: eat_tail_def Let_def split: if_splits prod.splits)

lemma eat_ops_unknown:
  "eat_ops d c next ctx = (r, d', Some eo, ctx') \<Longrightarrow> eo_type eo = TOKEN_UNKNOWN \<Longrightarrow> d' = d \<and> eo_len eo = 0"
proof (cases "eat_op d c")
  case None
  assume "eat_ops d c next ctx = (r, d', Some eo, ctx')" "eo_type eo = TOKEN_UNKNOWN"
  with None show ?thesis by (auto simp: eat_ops_def split: prod.splits dest: eat_tail_unknown)
next
  case (Some a)
  assume "eat_ops d c next ctx = (r, d', Some eo, ctx')" "eo_type eo = TOKEN_UNKNOWN"
  with Some eat_op_type [OF Some] show ?thesis by (auto simp: eat_ops_def)
qed

lemma eat_slash_or_ops_unknown:
  "eat_slash_or_ops d c next tv = (r, d', Some eo, ctx') \<Longrightarrow> eo_type eo = TOKEN_UNKNOWN
     \<Longrightarrow> d' = d \<and> eo_len eo = 0"
  by (auto simp: eat_slash_or_ops_def Let_def split: if_splits prod.splits
        dest: eat_ops_unknown eat_tail_unknown)

lemma eat_token_unknown:
  assumes "eat_token d tv = (r, d', Some eo, ctx')" and "eo_type eo = TOKEN_UNKNOWN"
  shows "d' = d\<lparr>flag := 0\<rparr> \<and> eo_len eo = 0"
proof -
  let ?c = "peek_char d 0"
  let ?d = "d\<lparr>flag := 0\<rparr>"
  consider (eof) "?c = NUL"
    | (pending) "?c \<noteq> NUL" "flag d AND FLAG__PENDING_T_BRACE \<noteq> 0"
    | (resume) "?c \<noteq> NUL" "flag d AND FLAG__PENDING_T_BRACE = 0" "flag d AND FLAG__RESUME_LIT \<noteq> 0"
    | (comment) r' where "?c \<noteq> NUL" "no_flag d" "eat_comment ?d ?c (peek_char d 1) = Some r'"
    | (simple) r' where "?c \<noteq> NUL" "no_flag d" "eat_comment ?d ?c (peek_char d 1) = None"
        "eat_simple ?d ?c = Some r'"
    | (rest) "?c \<noteq> NUL" "no_flag d" "eat_comment ?d ?c (peek_char d 1) = None"
        "eat_simple ?d ?c = None"
    unfolding no_flag_def by (cases "eat_comment ?d ?c (peek_char d 1)"; cases "eat_simple ?d ?c") auto
  then show ?thesis
  proof cases
    case eof
    with assms show ?thesis by (auto simp: eat_token_def Let_def)
  next
    case pending
    with assms show ?thesis by (auto simp: eat_token_def Let_def split: prod.splits)
  next
    case resume
    with assms show ?thesis by (auto simp: eat_token_def Let_def split: prod.splits)
  next
    case comment
    obtain d1 eo1 where r': "r' = (d1, eo1)" by (cases r') auto
    with comment assms have "eo = eo1" by (auto simp: eat_token_def Let_def no_flag_def)
    with eat_comment_type [OF comment(3) [unfolded r']] assms(2) show ?thesis by simp
  next
    case simple
    obtain r1 d1 eo1 where r': "r' = (r1, d1, eo1)" by (cases r') auto
    with simple assms have eq: "r = r1" "Some eo = eo1"
      by (auto simp: eat_token_def Let_def no_flag_def)
    from eat_simple_type [OF simple(4) [unfolded r' eq(2) [symmetric]]] assms(2) show ?thesis
      by simp
  next
    case rest
    with assms have "eat_slash_or_ops ?d ?c (peek_char d 1) tv = (r, d', Some eo, ctx')"
      by (auto simp: eat_token_def Let_def no_flag_def)
    from eat_slash_or_ops_unknown [OF this assms(2)] show ?thesis .
  qed
qed

lemma eat_token_eof:
  "peek_char d 0 = NUL \<Longrightarrow>
     eat_token d tv = ((if 0 < depth d then 1 else 0), d\<lparr>flag := 0\<rparr>,
                       Some \<lparr>eo_len = 0, eo_type = TOKEN_EOF\<rparr>, tv_context tv)"
  by (simp add: eat_token_def Let_def)

section \<open>Facts about the scanning loops\<close>

lemma frame_line [simp]: "frame (d\<lparr>line_no := n\<rparr>) = frame d"
  by (simp add: frame_def)

lemma frame_flag [simp]: "frame (d\<lparr>flag := n\<rparr>) = frame d"
  by (simp add: frame_def)

lemma frame_count_line [simp]: "frame (count_line d c) = frame d"
  by (simp add: frame_def)

lemma regexp_loop_frame: "frame (fst (regexp_loop d ice l c)) = frame d"
proof (induction d ice l c rule: regexp_loop.induct)
  case (1 d ice l c)
  show ?case
  proof (cases ice)
    case True
    with "1.IH" show ?thesis
      by (subst regexp_loop.simps) (simp add: Let_def)
  next
    case False
    with "1.IH" show ?thesis
      by (subst regexp_loop.simps) (simp add: Let_def)
  qed
qed

lemma regexp_loop_flag: "flag (fst (regexp_loop d ice l c)) = flag d"
proof (induction d ice l c rule: regexp_loop.induct)
  case (1 d ice l c)
  show ?case
  proof (cases ice)
    case True
    with "1.IH" show ?thesis
      by (subst regexp_loop.simps) (simp add: Let_def)
  next
    case False
    with "1.IH" show ?thesis
      by (subst regexp_loop.simps) (simp add: Let_def)
  qed
qed

lemma string_loop_frame: "frame (fst (string_loop d start l)) = frame d"
proof (induction d start l rule: string_loop.induct)
  case (1 d start l)
  show ?case
    by (subst string_loop.simps) (simp add: Let_def "1.IH")
qed

lemma string_loop_flag:
  "flag (fst (string_loop d start l)) = flag d
     \<or> flag (fst (string_loop d start l)) = FLAG__PENDING_T_BRACE"
proof (induction d start l rule: string_loop.induct)
  case (1 d start l)
  show ?case
    using "1.IH" by (subst string_loop.simps, subst (2) string_loop.simps) (simp add: Let_def)
qed

lemma count_newlines_frame: "frame (count_newlines d nl at) = frame d"
proof (induction d nl at rule: count_newlines.induct)
  case (1 d nl at)
  show ?case
    by (subst count_newlines.simps) (simp add: "1.IH" split: option.splits)
qed

lemma count_newlines_flag: "flag (count_newlines d nl at) = flag d"
proof (induction d nl at rule: count_newlines.induct)
  case (1 d nl at)
  show ?case
    by (subst count_newlines.simps) (simp add: "1.IH" split: option.splits)
qed

section \<open>Facts about the rules of eat\_token\<close>

lemma stack_dec_template:
  "template_bit_on_top d \<Longrightarrow> stack_dec d = (1, d\<lparr>depth := depth d - 1\<rparr>)"
  by (auto simp: template_bit_on_top_def stack_dec_def Let_def)

lemma eat_comment_not_slash: "c \<noteq> CHR ''/'' \<Longrightarrow> eat_comment d c next = None"
  by (simp add: eat_comment_def)

lemma eat_token_close_template:
  assumes "no_flag d" and "peek_char d 0 = CHR '')'' \<or> peek_char d 0 = CHR '']''"
    and "template_bit_on_top d"
  shows "eat_token d tv =
     (1, d\<lparr>flag := 0, depth := depth d - 1\<rparr>, Some \<lparr>eo_len = 1, eo_type = TOKEN_CLOSE\<rparr>, tv_context tv)"
proof -
  from assms(3) have "template_bit_on_top (d\<lparr>flag := 0\<rparr>)"
    by (simp add: template_bit_on_top_def)
  from stack_dec_template [OF this] assms(1,2) show ?thesis
    by (auto simp: eat_token_def Let_def no_flag_def eat_comment_not_slash eat_simple_def)
qed

lemma eat_token_brace_template:
  assumes "no_flag d" and "peek_char d 0 = CHR ''}''" and "template_bit_on_top d"
  shows "eat_token d tv =
     (0, d\<lparr>flag := FLAG__RESUME_LIT, depth := depth d - 1\<rparr>,
      Some \<lparr>eo_len = 1, eo_type = TOKEN_CLOSE\<rparr>, tv_context tv)"
proof -
  from assms(3) have "template_bit_on_top (d\<lparr>flag := 0\<rparr>)"
    by (simp add: template_bit_on_top_def)
  from stack_dec_template [OF this] assms(1,2) show ?thesis
    by (auto simp: eat_token_def Let_def no_flag_def eat_comment_not_slash eat_simple_def)
qed

lemma eat_comment_no_comment:
  "next \<noteq> CHR ''/'' \<Longrightarrow> next \<noteq> CHR ''*'' \<Longrightarrow> eat_comment d c next = None"
  by (simp add: eat_comment_def)

lemma eat_simple_slash: "eat_simple d (CHR ''/'') = None"
  by (simp add: eat_simple_def)

lemma op_run_slash:
  "peek_char d 1 \<noteq> CHR ''/'' \<Longrightarrow> op_run d (CHR ''/'') 1 0 (CHR ''/'') = (1, peek_char d 1)"
  by (subst op_run.simps) (simp add: Let_def)

lemma eat_op_slash:
  "peek_char d 1 \<noteq> CHR ''/'' \<Longrightarrow>
     eat_op d (CHR ''/'') =
       Some \<lparr>eo_len = (if peek_char d 1 = CHR ''='' then 2 else 1), eo_type = TOKEN_OP\<rparr>"
  by (simp add: eat_op_def op_allowed_def strchr_lit_def op_run_slash Let_def)

lemma eat_tail_slash:
  "eat_tail d (CHR ''/'') next =
     (fst (regexp_loop d False 1 next),
      \<lparr>eo_len = alnum_loop (fst (regexp_loop d False 1 next))
                  (fst (snd (regexp_loop d False 1 next))) (snd (snd (regexp_loop d False 1 next))),
       eo_type = TOKEN_REGEXP\<rparr>)"
  by (simp add: eat_tail_def isnum_def isdigit_def Let_def split: prod.splits)

lemma eat_token_slash:
  assumes "no_flag d" and "peek_char d 0 = CHR ''/''"
    and "peek_char d 1 \<noteq> CHR ''/''" and "peek_char d 1 \<noteq> CHR ''*''"
    and "tv_check tv (tv_context tv) = (hv, ctx1)"
  shows "eat_token d tv =
     (if hv < 0 then (hv, d\<lparr>flag := 0\<rparr>, None, ctx1)
      else if hv = 0 then
        (0, fst (eat_tail (d\<lparr>flag := 0\<rparr>) (CHR ''/'') (peek_char d 1)),
         Some (snd (eat_tail (d\<lparr>flag := 0\<rparr>) (CHR ''/'') (peek_char d 1))), ctx1)
      else (0, d\<lparr>flag := 0\<rparr>,
            Some \<lparr>eo_len = (if peek_char d 1 = CHR ''='' then 2 else 1), eo_type = TOKEN_OP\<rparr>, ctx1))"
  using assms
  by (simp add: eat_token_def Let_def no_flag_def eat_comment_no_comment eat_simple_slash
        eat_slash_or_ops_def eat_ops_def eat_op_slash split: prod.splits)

lemma eat_tail_frame: "frame (fst (eat_tail d c next)) = frame d"
  using string_loop_frame [of d c 0] regexp_loop_frame [of d False 1 "next"]
  by (auto simp: eat_tail_def Let_def split: prod.splits)

lemma eat_tail_flag:
  "flag (fst (eat_tail d c next)) = flag d \<or> flag (fst (eat_tail d c next)) = FLAG__PENDING_T_BRACE"
  using string_loop_flag [of d c 0] regexp_loop_flag [of d False 1 "next"]
  by (auto simp: eat_tail_def Let_def split: prod.splits)

lemma eat_slash_or_ops_flag:
  assumes "eat_slash_or_ops d c next tv = (r, d', eo, ctx')"
  shows "frame d' = frame d \<and> (flag d' = flag d \<or> flag d' = FLAG__PENDING_T_BRACE)"
proof -
  have "d' = d \<or> d' = fst (eat_tail d c next)"
    using assms
    by (cases "eat_op d c")
       (auto simp: eat_slash_or_ops_def eat_ops_def Let_def split: if_splits prod.splits)
  with eat_tail_frame [of d c "next"] eat_tail_flag [of d c "next"] show ?thesis by auto
qed

lemma eat_comment_flag:
  "eat_comment d c next = Some (d', eo) \<Longrightarrow> frame d' = frame d \<and> flag d' = flag d"
  by (auto simp: eat_comment_def Let_def count_newlines_frame count_newlines_flag
        split: if_splits option.splits)

lemma eat_simple_resume:
  assumes "eat_simple d c = Some (r, d', eo)" and "flag d = 0" and "flag d' = FLAG__RESUME_LIT"
  shows "c = CHR ''}'' \<and> r = 0 \<and> eo = Some \<lparr>eo_len = 1, eo_type = TOKEN_CLOSE\<rparr>
         \<and> buf d' = buf d \<and> curr d' = curr d \<and> len d' = len d
         \<and> template_bit_on_top d \<and> depth d' = depth d - 1"
  using assms
  by (auto simp: eat_simple_def stack_inc_def stack_dec_def Let_def FLAG__RESUME_LIT_def
        template_bit_on_top_def split: if_splits)

lemma eat_token_flag_resume:
  assumes "eat_token d tv = (r, d', eo, ctx')" and "flag d' = FLAG__RESUME_LIT"
  shows "peek_char d 0 = CHR ''}'' \<and> r = 0 \<and> eo = Some \<lparr>eo_len = 1, eo_type = TOKEN_CLOSE\<rparr>
         \<and> buf d' = buf d \<and> curr d' = curr d \<and> len d' = len d
         \<and> no_flag d \<and> template_bit_on_top d \<and> depth d' = depth d - 1"
proof -
  let ?c = "peek_char d 0"
  let ?d = "d\<lparr>flag := 0\<rparr>"
  consider (eof) "?c = NUL"
    | (pending) "?c \<noteq> NUL" "flag d AND FLAG__PENDING_T_BRACE \<noteq> 0"
    | (resume) "?c \<noteq> NUL" "flag d AND FLAG__PENDING_T_BRACE = 0" "flag d AND FLAG__RESUME_LIT \<noteq> 0"
    | (comment) r' where "?c \<noteq> NUL" "no_flag d" "eat_comment ?d ?c (peek_char d 1) = Some r'"
    | (simple) r' where "?c \<noteq> NUL" "no_flag d" "eat_comment ?d ?c (peek_char d 1) = None"
        "eat_simple ?d ?c = Some r'"
    | (rest) "?c \<noteq> NUL" "no_flag d" "eat_comment ?d ?c (peek_char d 1) = None"
        "eat_simple ?d ?c = None"
    unfolding no_flag_def by (cases "eat_comment ?d ?c (peek_char d 1)"; cases "eat_simple ?d ?c") auto
  then show ?thesis
  proof cases
    case eof
    with assms show ?thesis by (auto simp: eat_token_def Let_def FLAG__RESUME_LIT_def)
  next
    case pending
    with assms show ?thesis
      by (auto simp: eat_token_def Let_def stack_inc_def FLAG__RESUME_LIT_def split: if_splits)
  next
    case resume
    with assms have "d' = fst (string_loop ?d backtick (- 1))"
      by (auto simp: eat_token_def Let_def split: prod.splits)
    with string_loop_flag [of ?d backtick "- 1"] assms(2) show ?thesis
      by (auto simp: FLAG__RESUME_LIT_def FLAG__PENDING_T_BRACE_def)
  next
    case comment
    obtain d1 eo1 where r': "r' = (d1, eo1)" by (cases r') auto
    with comment assms have "d' = d1" by (auto simp: eat_token_def Let_def no_flag_def)
    with eat_comment_flag [OF comment(3) [unfolded r']] assms(2) show ?thesis
      by (simp add: FLAG__RESUME_LIT_def)
  next
    case simple
    obtain r1 d1 eo1 where r': "r' = (r1, d1, eo1)" by (cases r') auto
    with simple assms have eq: "r = r1" "d' = d1" "eo = eo1"
      by (auto simp: eat_token_def Let_def no_flag_def)
    from eat_simple_resume [OF simple(4) [unfolded r']] eq assms(2) simple(2) show ?thesis
      by (simp add: template_bit_on_top_def)
  next
    case rest
    with assms have "eat_slash_or_ops ?d ?c (peek_char d 1) tv = (r, d', eo, ctx')"
      by (auto simp: eat_token_def Let_def no_flag_def)
    from eat_slash_or_ops_flag [OF this] assms(2) show ?thesis
      by (auto simp: FLAG__RESUME_LIT_def FLAG__PENDING_T_BRACE_def)
  qed
qed

lemma eat_token_resume:
  assumes "flag d = FLAG__RESUME_LIT" and "peek_char d 0 \<noteq> NUL"
  shows "eat_token d tv =
     (0, fst (string_loop (d\<lparr>flag := 0\<rparr>) backtick (- 1)),
      Some \<lparr>eo_len = snd (string_loop (d\<lparr>flag := 0\<rparr>) backtick (- 1)), eo_type = TOKEN_STRING\<rparr>,
      tv_context tv)"
  using assms
  by (simp add: eat_token_def Let_def FLAG__RESUME_LIT_def FLAG__PENDING_T_BRACE_def
        split: prod.splits)

lemma prsr_next_token_resume:
  assumes "flag d0 = FLAG__RESUME_LIT" and "skip_ws d0 = Some d"
    and "prsr_next_token d0 out tv = Some (ret, d', out', ctx')"
  shows "ret = 0 \<and> tok_p out' = curr d \<and> tok_line_no out' = line_no d
     \<and> tok_type out' = (if peek_char d 0 = NUL then TOKEN_EOF else TOKEN_STRING)"
proof -
  from skip_ws_spec [OF assms(2)] assms(1) have fl: "flag d = FLAG__RESUME_LIT"
    by (cases d0) auto
  show ?thesis
  proof (cases "peek_char d 0 = NUL")
    case True
    from eat_token_eof [OF True, of tv] assms(2,3) True show ?thesis
      by (auto simp: prsr_next_token_def Let_def type_negative_def split: if_splits)
  next
    case False
    have "curr (fst (string_loop (d\<lparr>flag := 0\<rparr>) backtick (- 1))) = curr d"
      using string_loop_frame [of "d\<lparr>flag := 0\<rparr>" backtick "- 1"] by (simp add: frame_def)
    with eat_token_resume [OF fl False, of tv] assms(2,3) False show ?thesis
      by (auto simp: prsr_next_token_def Let_def type_negative_def)
  qed
qed

section \<open>Facts about the newline count of a long comment\<close>

lemma find_sub_single_None: "find_sub [c] xs = None \<Longrightarrow> c \<notin> set xs"
  by (induction xs) (auto split: if_splits)

lemma find_sub_single_Some:
  "find_sub [c] xs = Some k \<Longrightarrow> k < length xs \<and> xs ! k = c \<and> c \<notin> set (take k xs)"
proof (induction xs arbitrary: k)
  case Nil
  then show ?case by simp
next
  case (Cons x xs)
  show ?case
  proof (cases "c = x")
    case True
    with Cons.prems show ?thesis by simp
  next
    case False
    with Cons.prems obtain j where j: "find_sub [c] xs = Some j" "k = Suc j" by auto
    with Cons.IH [OF j(1)] False show ?thesis by simp
  qed
qed

lemma find_sub_prefix: "find_sub needle xs = Some k \<Longrightarrow> prefix needle (drop k xs)"
proof (induction xs arbitrary: k)
  case Nil
  then show ?case by (simp split: if_splits)
next
  case (Cons x xs)
  show ?case
  proof (cases "prefix needle (x # xs)")
    case True
    with Cons.prems show ?thesis by simp
  next
    case False
    with Cons.prems obtain j where j: "find_sub needle xs = Some j" "k = Suc j" by auto
    with Cons.IH [OF j(1)] show ?thesis by simp
  qed
qed

lemma takeWhile_drop: "k \<le> length (takeWhile P ys) \<Longrightarrow> takeWhile P (drop k ys) = drop k (takeWhile P ys)"
proof (induction ys arbitrary: k)
  case Nil
  then show ?case by simp
next
  case (Cons y ys)
  then show ?case by (cases k) (auto split: if_splits)
qed

lemma take_takeWhile: "k \<le> length (takeWhile P ys) \<Longrightarrow> take k (takeWhile P ys) = take k ys"
proof (induction ys arbitrary: k)
  case Nil
  then show ?case by simp
next
  case (Cons y ys)
  then show ?case by (cases k) (auto split: if_splits)
qed

lemma c_string_drop:
  "0 \<le> s \<Longrightarrow> k \<le> length (c_string b s) \<Longrightarrow> c_string b (s + int k) = drop k (c_string b s)"
  using takeWhile_drop [of k "\<lambda>c. c \<noteq> NUL" "drop (nat s) b"]
  by (simp add: c_string_def nat_add_distrib add.commute)

lemma take_split_at:
  "k < n \<Longrightarrow> k < length xs \<Longrightarrow> take n xs = take k xs @ xs ! k # take (n - Suc k) (drop (Suc k) xs)"
proof -
  assume kn: "k < n" and kl: "k < length xs"
  have "take n xs = take (k + (n - k)) xs" using kn by simp
  also have "\<dots> = take k xs @ take (n - k) (drop k xs)" by (rule take_add)
  also have "drop k xs = xs ! k # drop (Suc k) xs" using kl by (simp add: Cons_nth_drop_Suc)
  also have "take (n - k) (xs ! k # drop (Suc k) xs) = xs ! k # take (n - Suc k) (drop (Suc k) xs)"
  proof -
    from kn have "n - k = Suc (n - Suc k)" by simp
    then show ?thesis by simp
  qed
  finally show ?thesis .
qed

lemma count_newlines_line_no:
  "0 \<le> nl \<Longrightarrow> nl \<le> at \<Longrightarrow> at \<le> nl + int (length (c_string (buf d) nl)) \<Longrightarrow>
     line_no (count_newlines d nl at) =
       line_no d + int (count_list (take (nat (at - nl)) (c_string (buf d) nl)) newline)"
proof (induction d nl at rule: count_newlines.induct)
  case (1 d nl at)
  let ?xs = "c_string (buf d) nl"
  show ?case
  proof (cases "find_sub [newline] ?xs")
    case None
    then have "strchr (buf d) nl newline = None" by (simp add: strchr_def)
    moreover from find_sub_single_None [OF None] have "newline \<notin> set (take (nat (at - nl)) ?xs)"
      by (auto dest: in_set_takeD)
    ultimately show ?thesis by (subst count_newlines.simps) simp
  next
    case (Some k)
    then have sc: "strchr (buf d) nl newline = Some (nl + int k)" by (simp add: strchr_def)
    note fs = find_sub_single_Some [OF Some]
    show ?thesis
    proof (cases "at \<le> nl + int k")
      case True
      then have "nat (at - nl) \<le> k" by linarith
      then have "set (take (nat (at - nl)) ?xs) \<subseteq> set (take k ?xs)"
        by (rule set_take_subset_set_take)
      with fs have "newline \<notin> set (take (nat (at - nl)) ?xs)" by blast
      with sc True show ?thesis by (subst count_newlines.simps) simp
    next
      case False
      let ?d = "d\<lparr>line_no := line_no d + 1\<rparr>"
      from fs have cs: "c_string (buf d) (nl + int k + 1) = drop (Suc k) ?xs"
        using c_string_drop [OF "1.prems" (1), of "Suc k" "buf d"] by (simp add: algebra_simps)
      have "line_no (count_newlines ?d (nl + int k + 1) at) =
        line_no ?d + int (count_list (take (nat (at - (nl + int k + 1))) (c_string (buf ?d) (nl + int k + 1))) newline)"
        using "1.prems" False fs cs by (intro "1.IH" [OF sc False]) auto
      moreover have "take (nat (at - nl)) ?xs =
          take k ?xs @ ?xs ! k # take (nat (at - nl) - Suc k) (drop (Suc k) ?xs)"
        using False fs "1.prems" by (intro take_split_at) auto
      moreover have "nat (at - (nl + int k + 1)) = nat (at - nl) - Suc k" using False by simp
      ultimately show ?thesis using sc False fs cs
        by (subst count_newlines.simps) simp
    qed
  qed
qed

lemma count_newlines_only_line:
  "count_newlines d nl at = d\<lparr>line_no := line_no (count_newlines d nl at)\<rparr>"
proof (induction d nl at rule: count_newlines.induct)
  case (1 d nl at)
  show ?case
  proof (cases "strchr (buf d) nl newline")
    case None
    then show ?thesis by (subst count_newlines.simps, subst (2) count_newlines.simps) simp
  next
    case (Some nl')
    show ?thesis
    proof (cases "at \<le> nl'")
      case True
      with Some show ?thesis by (subst count_newlines.simps, subst (2) count_newlines.simps) simp
    next
      case False
      from "1.IH" [OF Some False] Some False show ?thesis
        by (subst count_newlines.simps, subst (2) count_newlines.simps) (cases d, simp)
    qed
  qed
qed

lemma close_then_resume:
  assumes "prsr_next_token d0 out0 tv0 = Some (r1, d1, out1, c1)"
    and "flag d1 = FLAG__RESUME_LIT"
    and "prsr_next_token d1 out1 tv1 = Some (r2, d2, out2, c2)"
  shows "r1 = 0 \<and> tok_type out1 = TOKEN_CLOSE \<and> tok_len out1 = 1
     \<and> byte_at (buf d1) (tok_p out1) = Some (CHR ''}'')
     \<and> r2 = 0 \<and> (tok_type out2 = TOKEN_STRING \<or> tok_type out2 = TOKEN_EOF)
     \<and> tok_p out1 < tok_p out2
     \<and> (\<exists>d. skip_ws d0 = Some d \<and> template_bit_on_top d \<and> depth d1 = depth d - 1)"
proof -
  from assms(1) obtain da where ska: "skip_ws d0 = Some da"
    by (cases "skip_ws d0") (auto simp: prsr_next_token_def)
  obtain r da' eo ca where et: "eat_token da tv0 = (r, da', eo, ca)"
    by (cases "eat_token da tv0") auto
  have fl: "flag da' = FLAG__RESUME_LIT"
    using assms(1,2) ska et
    by (auto simp: prsr_next_token_def Let_def split: if_splits option.splits)
  note fr = eat_token_flag_resume [OF et fl]
  with assms(1) ska et have first:
    "r1 = 0" "tok_type out1 = TOKEN_CLOSE" "tok_len out1 = 1" "tok_p out1 = curr da"
    "curr d1 = curr da + 1" "buf d1 = buf da" "depth d1 = depth da - 1"
    by (auto simp: prsr_next_token_def Let_def type_negative_def)
  from fr ska first(7) have pop:
    "\<exists>d. skip_ws d0 = Some d \<and> template_bit_on_top d \<and> depth d1 = depth d - 1"
    by blast
  from skip_ws_stop [OF ska] obtain c where c: "byte_at (buf da) (curr da) = Some c" by blast
  from fr have "peek_char da 0 = CHR ''}''" by simp
  with c have "c = CHR ''}''"
    by (auto simp: peek_char_def byte_at_def Let_def split: if_splits)
  with c first have b: "byte_at (buf d1) (tok_p out1) = Some (CHR ''}'')" by simp
  from assms(3) obtain db where skb: "skip_ws d1 = Some db"
    by (cases "skip_ws d1") (auto simp: prsr_next_token_def)
  from skip_ws_spec [OF skb] have "curr d1 \<le> curr db" by (cases d1) auto
  with prsr_next_token_resume [OF assms(2) skb assms(3)] first b pop show ?thesis
    by (auto split: if_splits)
qed

lemma prefix_drop: "prefix xs ys \<Longrightarrow> prefix (drop k xs) (drop k ys)"
  by (auto simp: prefix_def)

lemma prefix_takeWhile: "prefix (takeWhile P ys) ys"
  by (metis takeWhile_dropWhile_id prefixI)

lemma strstr_at:
  assumes "strstr b s needle = Some at" and "0 \<le> s"
  shows "s \<le> at" and "at + int (length needle) \<le> s + int (length (c_string b s))"
    and "take (nat (at - s)) (c_string b s) = take (nat (at - s)) (drop (nat s) b)"
    and "prefix needle (drop (nat at) b)"
proof -
  from assms(1) obtain k where k: "find_sub needle (c_string b s) = Some k" "at = s + int k"
    by (auto simp: strstr_def)
  note bd = find_sub_bound [OF k(1)]
  from k show "s \<le> at" by simp
  from k bd show "at + int (length needle) \<le> s + int (length (c_string b s))" by simp
  from k bd show "take (nat (at - s)) (c_string b s) = take (nat (at - s)) (drop (nat s) b)"
    by (simp add: c_string_def take_takeWhile)
  have "prefix (drop k (c_string b s)) (drop k (drop (nat s) b))"
    unfolding c_string_def by (intro prefix_drop prefix_takeWhile)
  with find_sub_prefix [OF k(1)] have "prefix needle (drop k (drop (nat s) b))"
    by (rule prefix_order.trans)
  with k assms(2) show "prefix needle (drop (nat at) b)"
    by (simp add: nat_add_distrib add.commute)
qed

lemma eat_token_long_comment:
  assumes "no_flag d" and "peek_char d 0 = CHR ''/''" and "peek_char d 1 = CHR ''*''"
    and "strstr (buf d) (curr d + 2) ''*/'' = Some at" and "0 \<le> curr d"
  shows "eat_token d tv =
     (0, d\<lparr>flag := 0, line_no := line_no d + int (count_list
            (take (nat (at - (curr d + 2))) (drop (nat (curr d + 2)) (buf d))) newline)\<rparr>,
      Some \<lparr>eo_len = at + 2 - curr d, eo_type = TOKEN_COMMENT\<rparr>, tv_context tv)"
proof -
  let ?d = "d\<lparr>flag := 0\<rparr>"
  from assms(5) have s0: "0 \<le> curr d + 2" by simp
  note sa = strstr_at [OF assms(4) s0]
  have "line_no (count_newlines ?d (curr d + 2) at) =
      line_no ?d + int (count_list (take (nat (at - (curr d + 2))) (c_string (buf ?d) (curr d + 2))) newline)"
    using sa(1,2) s0 by (intro count_newlines_line_no) auto
  with sa(3) have ln: "line_no (count_newlines ?d (curr d + 2) at) =
      line_no d + int (count_list (take (nat (at - (curr d + 2))) (drop (nat (curr d + 2)) (buf d))) newline)"
    by simp
  have "count_newlines ?d (curr d + 2) at = ?d\<lparr>line_no := line_no (count_newlines ?d (curr d + 2) at)\<rparr>"
    by (rule count_newlines_only_line)
  with ln have cn: "count_newlines ?d (curr d + 2) at =
      d\<lparr>flag := 0, line_no := line_no d + int (count_list
            (take (nat (at - (curr d + 2))) (drop (nat (curr d + 2)) (buf d))) newline)\<rparr>"
    by simp
  from assms(1-4) show ?thesis
    by (simp add: eat_token_def Let_def no_flag_def eat_comment_def cn)
qed

section \<open>Facts about the line count\<close>

lemma count_line_mono: "line_no d \<le> line_no (count_line d c)"
  by (simp add: count_line_def)

lemma string_loop_line: "line_no d \<le> line_no (fst (string_loop d start l))"
proof (induction d start l rule: string_loop.induct)
  case (1 d start l)
  let ?c = "peek_char d (l + 1)"
  consider (stop) "?c = NUL \<or> ?c = start"
    | (bs) "?c \<noteq> NUL" "?c \<noteq> start" "?c = backslash"
    | (tmpl) "?c \<noteq> NUL" "?c \<noteq> start" "?c \<noteq> backslash"
        "start = backtick \<and> ?c = CHR ''$'' \<and> peek_char d (l + 1 + 1) = CHR ''{''"
    | (other) "?c \<noteq> NUL" "?c \<noteq> start" "?c \<noteq> backslash"
        "\<not> (start = backtick \<and> ?c = CHR ''$'' \<and> peek_char d (l + 1 + 1) = CHR ''{'')"
    by blast
  then show ?case
  proof cases
    case stop
    then show ?thesis by (subst string_loop.simps) (auto simp: Let_def)
  next
    case bs
    then have "string_loop d start l =
        string_loop (count_line d (peek_char d (l + 1 + 1))) start (l + 1 + 1)"
      by (subst string_loop.simps) (simp add: Let_def)
    with "1.IH" (1) [OF refl refl bs refl refl] count_line_mono [of d "peek_char d (l + 1 + 1)"]
    show ?thesis by simp
  next
    case tmpl
    then show ?thesis by (subst string_loop.simps) (simp add: Let_def)
  next
    case other
    then have "string_loop d start l = string_loop (count_line d ?c) start (l + 1)"
      by (subst string_loop.simps) (auto simp: Let_def)
    with "1.IH" (2) [OF refl refl other] count_line_mono [of d ?c]
    show ?thesis by simp
  qed
qed

lemma regexp_loop_line: "line_no d \<le> line_no (fst (regexp_loop d ice l c))"
proof (induction d ice l c rule: regexp_loop.induct)
  case (1 d ice l c)
  consider (lbr) "c = CHR ''[''"
    | (close) "c \<noteq> CHR ''[''" "c = CHR '']''"
    | (bs) "c \<noteq> CHR ''[''" "c \<noteq> CHR '']''" "c = backslash"
    | (slash) "c \<noteq> CHR ''[''" "c \<noteq> CHR '']''" "c \<noteq> backslash" "\<not> ice \<and> c = CHR ''/''"
    | (other) "c \<noteq> CHR ''[''" "c \<noteq> CHR '']''" "c \<noteq> backslash" "\<not> (\<not> ice \<and> c = CHR ''/'')"
    by blast
  then show ?case
  proof cases
    case lbr
    show ?thesis
    proof (cases "peek_char d (l + 1) = NUL")
      case True
      with lbr show ?thesis by (subst regexp_loop.simps) (simp add: Let_def)
    next
      case False
      with lbr have "regexp_loop d ice l c = regexp_loop d True (l + 1) (peek_char d (l + 1))"
        by (subst regexp_loop.simps) (simp add: Let_def)
      with "1.IH" (1) [OF lbr refl refl False] show ?thesis by simp
    qed
  next
    case close
    show ?thesis
    proof (cases "peek_char d (l + 1) = NUL")
      case True
      with close show ?thesis by (subst regexp_loop.simps) (simp add: Let_def)
    next
      case False
      with close have "regexp_loop d ice l c = regexp_loop d False (l + 1) (peek_char d (l + 1))"
        by (subst regexp_loop.simps) (simp add: Let_def)
      with "1.IH" (2) [OF close refl refl False] show ?thesis by simp
    qed
  next
    case bs
    let ?d = "count_line d (peek_char d (l + 1))"
    show ?thesis
    proof (cases "peek_char d (l + 1 + 1) = NUL")
      case True
      with bs have "regexp_loop d ice l c = (?d, l + 1 + 1, peek_char d (l + 1 + 1))"
        by (subst regexp_loop.simps) (simp add: Let_def)
      with count_line_mono [of d "peek_char d (l + 1)"] show ?thesis by simp
    next
      case False
      with bs have "regexp_loop d ice l c = regexp_loop ?d ice (l + 1 + 1) (peek_char d (l + 1 + 1))"
        by (subst regexp_loop.simps) (simp add: Let_def)
      with "1.IH" (3) [OF bs refl refl refl refl False]
        count_line_mono [of d "peek_char d (l + 1)"]
      show ?thesis by simp
    qed
  next
    case slash
    then show ?thesis by (subst regexp_loop.simps) (simp add: Let_def)
  next
    case other
    let ?d = "count_line d c"
    show ?thesis
    proof (cases "peek_char d (l + 1) = NUL")
      case True
      with other have "regexp_loop d ice l c = (?d, l + 1, peek_char d (l + 1))"
        by (subst regexp_loop.simps) (auto simp: Let_def)
      with count_line_mono [of d c] show ?thesis by simp
    next
      case False
      with other have "regexp_loop d ice l c = regexp_loop ?d ice (l + 1) (peek_char d (l + 1))"
        by (subst regexp_loop.simps) (auto simp: Let_def)
      with "1.IH" (4) [OF other refl refl False] count_line_mono [of d c]
      show ?thesis by simp
    qed
  qed
qed

lemma count_newlines_line: "line_no d \<le> line_no (count_newlines d nl at)"
proof (induction d nl at rule: count_newlines.induct)
  case (1 d nl at)
  show ?case
  proof (cases "strchr (buf d) nl newline")
    case None
    then show ?thesis by (subst count_newlines.simps) simp
  next
    case (Some nl')
    show ?thesis
    proof (cases "at \<le> nl'")
      case True
      with Some show ?thesis by (subst count_newlines.simps) simp
    next
      case False
      from "1.IH" [OF Some False] Some False show ?thesis
        by (subst count_newlines.simps) simp
    qed
  qed
qed

lemma eat_tail_line: "line_no d \<le> line_no (fst (eat_tail d c next))"
  using string_loop_line [of d c 0] regexp_loop_line [of d False 1 "next"]
  by (auto simp: eat_tail_def Let_def split: prod.splits)

lemma eat_slash_or_ops_line:
  assumes "eat_slash_or_ops d c next tv = (r, d', eo, ctx')"
  shows "line_no d \<le> line_no d'"
proof -
  have "d' = d \<or> d' = fst (eat_tail d c next)"
    using assms
    by (cases "eat_op d c")
       (auto simp: eat_slash_or_ops_def eat_ops_def Let_def split: if_splits prod.splits)
  with eat_tail_line [of d c "next"] show ?thesis by auto
qed

lemma eat_comment_line: "eat_comment d c next = Some (d', eo) \<Longrightarrow> line_no d \<le> line_no d'"
  by (auto simp: eat_comment_def Let_def count_newlines_line split: if_splits option.splits)

lemma eat_simple_line: "eat_simple d c = Some (r, d', eo) \<Longrightarrow> line_no d' = line_no d"
  by (auto simp: eat_simple_def stack_inc_def stack_dec_def Let_def split: if_splits)

lemma eat_token_line:
  assumes "eat_token d tv = (r, d', eo, ctx')"
  shows "line_no d \<le> line_no d'"
proof -
  let ?c = "peek_char d 0"
  let ?d = "d\<lparr>flag := 0\<rparr>"
  consider (eof) "?c = NUL"
    | (pending) "?c \<noteq> NUL" "flag d AND FLAG__PENDING_T_BRACE \<noteq> 0"
    | (resume) "?c \<noteq> NUL" "flag d AND FLAG__PENDING_T_BRACE = 0" "flag d AND FLAG__RESUME_LIT \<noteq> 0"
    | (comment) r' where "?c \<noteq> NUL" "no_flag d" "eat_comment ?d ?c (peek_char d 1) = Some r'"
    | (simple) r' where "?c \<noteq> NUL" "no_flag d" "eat_comment ?d ?c (peek_char d 1) = None"
        "eat_simple ?d ?c = Some r'"
    | (rest) "?c \<noteq> NUL" "no_flag d" "eat_comment ?d ?c (peek_char d 1) = None"
        "eat_simple ?d ?c = None"
    unfolding no_flag_def by (cases "eat_comment ?d ?c (peek_char d 1)"; cases "eat_simple ?d ?c") auto
  then show ?thesis
  proof cases
    case eof
    with assms show ?thesis by (auto simp: eat_token_def Let_def)
  next
    case pending
    with assms show ?thesis
      by (auto simp: eat_token_def Let_def stack_inc_def split: if_splits)
  next
    case resume
    with assms have "d' = fst (string_loop ?d backtick (- 1))"
      by (auto simp: eat_token_def Let_def split: prod.splits)
    with string_loop_line [of ?d backtick "- 1"] show ?thesis by simp
  next
    case comment
    obtain d1 eo1 where r': "r' = (d1, eo1)" by (cases r') auto
    with comment assms have "d' = d1" by (auto simp: eat_token_def Let_def no_flag_def)
    with eat_comment_line [OF comment(3) [unfolded r']] show ?thesis by simp
  next
    case simple
    obtain r1 d1 eo1 where r': "r' = (r1, d1, eo1)" by (cases r') auto
    with simple assms have eq: "d' = d1"
      by (auto simp: eat_token_def Let_def no_flag_def)
    from eat_simple_line [OF simple(4) [unfolded r']] eq show ?thesis by simp
  next
    case rest
    with assms have "eat_slash_or_ops ?d ?c (peek_char d 1) tv = (r, d', eo, ctx')"
      by (auto simp: eat_token_def Let_def no_flag_def)
    from eat_slash_or_ops_line [OF this] show ?thesis by simp
  qed
qed

section \<open>The claims\<close>

subsection \<open>C1: the return value of prsr\_next\_token\<close>

text \<open>
  Claim C1, as amended. Let \<open>d\<close> be the state after the whitespace loop of a call of
  \<^verbatim>\<open>prsr_next_token\<close> that returns. The call returns a negative value exactly on a hard
  failure (stack overflow, unbalanced close, oracle failure). When the cursor stands at the
  end of the buffer it returns 0 and stores the EOF token of length 0, whatever the depth
  is: the value 1 that \<^verbatim>\<open>eat_token\<close> returns there for \<^verbatim>\<open>depth > 0\<close> is dropped
  (\<^verbatim>\<open>nb. we used to set `out->invalid` if ret\<close>). A positive value is returned only when
  no rule matched: it is the cursor \<^verbatim>\<open>d->curr\<close>, the cursor has not moved and the token
  slot holds nothing new but the line number.
\<close>

theorem C1_return_value:
  assumes "skip_ws d0 = Some d"
    and "prsr_next_token d0 out tv = Some (ret, d', out', ctx')"
  shows "(ret < 0 \<longleftrightarrow> stack_overflow d \<or> unbalanced_close d \<or> oracle_failure d tv)
     \<and> (peek_char d 0 = NUL \<longrightarrow>
          ret = 0 \<and> tok_type out' = TOKEN_EOF \<and> tok_len out' = 0 \<and> tok_p out' = curr d)
     \<and> (0 < ret \<longrightarrow>
          ret = curr d \<and> curr d' = curr d \<and> out' = out\<lparr>tok_line_no := line_no d\<rparr>
          \<and> fst (snd (snd (eat_token d tv))) = Some \<lparr>eo_len = 0, eo_type = TOKEN_UNKNOWN\<rparr>)"
proof -
  obtain r d2 eo c2 where et: "eat_token d tv = (r, d2, eo, c2)"
    by (cases "eat_token d tv") auto
  note ret = eat_token_ret [OF et]
  show ?thesis
  proof (cases "r < 0")
    case True
    with assms et have "ret = r" by (simp add: prsr_next_token_def Let_def)
    moreover from True ret(1) have "peek_char d 0 \<noteq> NUL"
      by (auto simp: stack_overflow_def unbalanced_close_def oracle_failure_def)
    ultimately show ?thesis using True ret(1) by simp
  next
    case False
    with ret(2) obtain e where e: "eo = Some e" by auto
    show ?thesis
    proof (cases "eo_type e = TOKEN_UNKNOWN")
      case True
      from eat_token_unknown [OF et [unfolded e] True] have d2: "d2 = d\<lparr>flag := 0\<rparr>" "eo_len e = 0"
        by simp_all
      with assms et e True False have "ret = curr d" "d' = d2" "out' = out\<lparr>tok_line_no := line_no d\<rparr>"
        by (simp_all add: prsr_next_token_def Let_def type_negative_def)
      moreover from et e True have "peek_char d 0 \<noteq> NUL"
        by (auto simp: eat_token_eof)
      moreover from byte_at_Some skip_ws_stop [OF assms(1)] have "0 \<le> curr d" by blast
      moreover have "e = \<lparr>eo_len = 0, eo_type = TOKEN_UNKNOWN\<rparr>" using True d2 by simp
      ultimately show ?thesis using False ret(1) d2 et e by simp
    next
      case known: False
      with assms et e False have r0: "ret = 0"
        by (auto simp: prsr_next_token_def Let_def type_negative_def split: if_splits option.splits)
      have "tok_type out' = TOKEN_EOF \<and> tok_len out' = 0 \<and> tok_p out' = curr d"
        if "peek_char d 0 = NUL"
        using assms et eat_token_eof [OF that, of tv]
        by (auto simp: prsr_next_token_def Let_def type_negative_def split: if_splits)
      with r0 False ret(1) show ?thesis by simp
    qed
  qed
qed

text \<open>
  A witness: on the input \<^verbatim>\<open>)\<close> the first call meets an unbalanced close and
  returns \<open>-1\<close>.
\<close>

theorem C1_return_value_witness:
  "skip_ws (prsr_init_token ('')'' @ [NUL])) = Some (prsr_init_token ('')'' @ [NUL]))
   \<and> prsr_next_token (prsr_init_token ('')'' @ [NUL])) empty_token (const_oracle 0) =
       Some (- 1, prsr_init_token ('')'' @ [NUL]), empty_token\<lparr>tok_line_no := 1\<rparr>, 0)
   \<and> (stack_overflow (prsr_init_token ('')'' @ [NUL]))
        \<or> unbalanced_close (prsr_init_token ('')'' @ [NUL]))
        \<or> oracle_failure (prsr_init_token ('')'' @ [NUL])) (const_oracle 0))"
proof -
  have h1: "skip_ws (prsr_init_token ('')'' @ [NUL])) = Some (prsr_init_token ('')'' @ [NUL]))"
    by code_simp
  have h2: "prsr_next_token (prsr_init_token ('')'' @ [NUL])) empty_token (const_oracle 0) =
       Some (- 1, prsr_init_token ('')'' @ [NUL]), empty_token\<lparr>tok_line_no := 1\<rparr>, 0)"
    by code_simp
  from C1_return_value [OF h1 h2] h1 h2 show ?thesis by simp
qed

text \<open>
  The counterexample to C1 as stated: on the input \<^verbatim>\<open>(\<close> the first call stores PAREN
  and leaves depth 1; the second call stands at the end of the buffer with depth 1, where
  \<^verbatim>\<open>eat_token\<close> returns 1, and it stores EOF and returns 0, not a positive value.
\<close>

theorem C1_counterexample:
  "after_calls 1 (prsr_init_token (''('' @ [NUL])) empty_token (const_oracle 0) =
     Some ((prsr_init_token (''('' @ [NUL]))\<lparr>curr := 1, depth := 1\<rparr>,
           tok TOKEN_PAREN 0 1 1 False, 0)
   \<and> depth ((prsr_init_token (''('' @ [NUL]))\<lparr>curr := 1, depth := 1\<rparr>) = 1
   \<and> peek_char ((prsr_init_token (''('' @ [NUL]))\<lparr>curr := 1, depth := 1\<rparr>) 0 = NUL
   \<and> eat_token ((prsr_init_token (''('' @ [NUL]))\<lparr>curr := 1, depth := 1\<rparr>) (const_oracle 0) =
       (1, (prsr_init_token (''('' @ [NUL]))\<lparr>curr := 1, depth := 1\<rparr>,
        Some \<lparr>eo_len = 0, eo_type = TOKEN_EOF\<rparr>, 0)
   \<and> prsr_next_token ((prsr_init_token (''('' @ [NUL]))\<lparr>curr := 1, depth := 1\<rparr>)
        (tok TOKEN_PAREN 0 1 1 False) (const_oracle 0) =
       Some (0, (prsr_init_token (''('' @ [NUL]))\<lparr>curr := 1, depth := 1\<rparr>,
             tok TOKEN_EOF 1 0 1 False, 0)"
  by code_simp

subsection \<open>C4: a closing parenthesis or bracket on a template entry\<close>

text \<open>
  Claim C4, as amended. When the dispatcher stands on \<^verbatim>\<open>)\<close> or \<^verbatim>\<open>]\<close>, no flag is
  armed, and the entry popped carries template bit 1, \<^verbatim>\<open>eat_token\<close> returns the positive
  value 1 of \<^verbatim>\<open>stack_dec\<close>, but the token call drops it: \<^verbatim>\<open>prsr_next_token\<close> returns
  0 (not a negative value), stores an ordinary CLOSE token of length 1, pops the entry and
  arms no flag.
\<close>

theorem C4_close_template_entry:
  assumes "skip_ws d0 = Some d" and "no_flag d"
    and "peek_char d 0 = CHR '')'' \<or> peek_char d 0 = CHR '']''"
    and "template_bit_on_top d"
  shows "fst (eat_token d tv) = 1
     \<and> prsr_next_token d0 out tv =
         Some (0, d\<lparr>flag := 0, depth := depth d - 1, curr := curr d + 1\<rparr>,
               out\<lparr>tok_line_no := line_no d, tok_p := curr d, tok_len := 1,
                    tok_type := TOKEN_CLOSE, lit_next_colon := False\<rparr>,
               tv_context tv)"
  using assms(1) eat_token_close_template [OF assms(2,3,4), of tv]
  by (simp add: prsr_next_token_def Let_def type_negative_def)

text \<open>
  A witness: the state after STRING and T\_BRACE on the input \<^verbatim>\<open>`${)\<close>.
\<close>

theorem C4_close_template_entry_witness:
  "skip_ws ((prsr_init_token (''`${)'' @ [NUL]))\<lparr>curr := 3, depth := 1, stack := [1, 0, 0, 0, 0, 0, 0, 0]\<rparr>)
     = Some ((prsr_init_token (''`${)'' @ [NUL]))\<lparr>curr := 3, depth := 1, stack := [1, 0, 0, 0, 0, 0, 0, 0]\<rparr>)
   \<and> no_flag ((prsr_init_token (''`${)'' @ [NUL]))\<lparr>curr := 3, depth := 1, stack := [1, 0, 0, 0, 0, 0, 0, 0]\<rparr>)
   \<and> peek_char ((prsr_init_token (''`${)'' @ [NUL]))\<lparr>curr := 3, depth := 1, stack := [1, 0, 0, 0, 0, 0, 0, 0]\<rparr>) 0
       = CHR '')''
   \<and> template_bit_on_top
        ((prsr_init_token (''`${)'' @ [NUL]))\<lparr>curr := 3, depth := 1, stack := [1, 0, 0, 0, 0, 0, 0, 0]\<rparr>)
   \<and> prsr_next_token
        ((prsr_init_token (''`${)'' @ [NUL]))\<lparr>curr := 3, depth := 1, stack := [1, 0, 0, 0, 0, 0, 0, 0]\<rparr>)
        empty_token (const_oracle 0) =
       Some (0, (prsr_init_token (''`${)'' @ [NUL]))\<lparr>curr := 4, stack := [1, 0, 0, 0, 0, 0, 0, 0]\<rparr>,
             tok TOKEN_CLOSE 3 1 1 False, 0)"
proof -
  let ?d = "(prsr_init_token (''`${)'' @ [NUL]))\<lparr>curr := 3, depth := 1, stack := [1, 0, 0, 0, 0, 0, 0, 0]\<rparr>"
  have h1: "skip_ws ?d = Some ?d" by code_simp
  have h2: "no_flag ?d" by code_simp
  have h3: "peek_char ?d 0 = CHR '')'' \<or> peek_char ?d 0 = CHR '']''" by code_simp
  have h4: "template_bit_on_top ?d" by code_simp
  have h5: "peek_char ?d 0 = CHR '')''" by code_simp
  have e: "Some (0 :: int, ?d\<lparr>flag := 0, depth := depth ?d - 1, curr := curr ?d + 1\<rparr>,
               empty_token\<lparr>tok_line_no := line_no ?d, tok_p := curr ?d, tok_len := 1,
                    tok_type := TOKEN_CLOSE, lit_next_colon := False\<rparr>,
               tv_context (const_oracle 0)) =
       Some (0, (prsr_init_token (''`${)'' @ [NUL]))\<lparr>curr := 4, stack := [1, 0, 0, 0, 0, 0, 0, 0]\<rparr>,
             tok TOKEN_CLOSE 3 1 1 False, 0)"
    by code_simp
  from C4_close_template_entry [OF h1 h2 h3 h4, of "const_oracle 0" empty_token] e
  have "prsr_next_token ?d empty_token (const_oracle 0) =
       Some (0, (prsr_init_token (''`${)'' @ [NUL]))\<lparr>curr := 4, stack := [1, 0, 0, 0, 0, 0, 0, 0]\<rparr>,
             tok TOKEN_CLOSE 3 1 1 False, 0)"
    by simp
  with h1 h2 h4 h5 show ?thesis by simp
qed

text \<open>
  The counterexample to C4 as stated: on the input \<^verbatim>\<open>`${)\<close> the first two calls store
  STRING and T\_BRACE and push an entry with bit 1; the third call stands on \<^verbatim>\<open>)\<close>, pops
  that entry and returns 0 with a CLOSE token.
\<close>

theorem C4_counterexample:
  "after_calls 2 (prsr_init_token (''`${)'' @ [NUL])) empty_token (const_oracle 0) =
     Some ((prsr_init_token (''`${)'' @ [NUL]))\<lparr>curr := 3, depth := 1, stack := [1, 0, 0, 0, 0, 0, 0, 0]\<rparr>,
           tok TOKEN_T_BRACE 1 2 1 False, 0)
   \<and> template_bit_on_top
        ((prsr_init_token (''`${)'' @ [NUL]))\<lparr>curr := 3, depth := 1, stack := [1, 0, 0, 0, 0, 0, 0, 0]\<rparr>)
   \<and> prsr_next_token
        ((prsr_init_token (''`${)'' @ [NUL]))\<lparr>curr := 3, depth := 1, stack := [1, 0, 0, 0, 0, 0, 0, 0]\<rparr>)
        (tok TOKEN_T_BRACE 1 2 1 False) (const_oracle 0) =
       Some (0, (prsr_init_token (''`${)'' @ [NUL]))\<lparr>curr := 4, stack := [1, 0, 0, 0, 0, 0, 0, 0]\<rparr>,
             tok TOKEN_CLOSE 3 1 1 False, 0)"
  by code_simp

subsection \<open>C5: the oracle on a slash\<close>

lemma slash_oracle_no_flag:
  assumes "skip_ws d0 = Some d" and "no_flag d" and "peek_char d 0 = CHR ''/''"
    and "peek_char d 1 \<noteq> CHR ''/''" and "peek_char d 1 \<noteq> CHR ''*''"
    and "tv_check tv (tv_context tv) = (hv, ctx1)"
  shows "\<exists>ret d' out'.
      prsr_next_token d0 out tv = Some (ret, d', out', ctx1)
      \<and> (hv < 0 \<longrightarrow> ret = hv \<and> curr d' = curr d)
      \<and> (hv = 0 \<longrightarrow> ret = 0 \<and> tok_type out' = TOKEN_REGEXP \<and> tok_p out' = curr d)
      \<and> (0 < hv \<longrightarrow> ret = 0 \<and> tok_type out' = TOKEN_OP \<and> tok_p out' = curr d
            \<and> tok_len out' = (if peek_char d 1 = CHR ''='' then 2 else 1))"
proof -
  note et = eat_token_slash [OF assms(2-6)]
  consider (neg) "hv < 0" | (zero) "hv = 0" | (pos) "0 < hv" by linarith
  then show ?thesis
  proof cases
    case neg
    with assms(1) et show ?thesis by (simp add: prsr_next_token_def Let_def)
  next
    case zero
    have "curr (fst (regexp_loop (d\<lparr>flag := 0\<rparr>) False 1 (peek_char d 1))) = curr d"
      using regexp_loop_frame [of "d\<lparr>flag := 0\<rparr>" False 1 "peek_char d 1"]
      by (simp add: frame_def)
    with zero assms(1) et show ?thesis
      by (simp add: prsr_next_token_def Let_def eat_tail_slash type_negative_def)
  next
    case pos
    with assms(1) et show ?thesis
      by (simp add: prsr_next_token_def Let_def type_negative_def)
  qed
qed

lemma slash_resume_no_oracle:
  assumes "skip_ws d0 = Some d" and "flag d = FLAG__RESUME_LIT" and "peek_char d 0 = CHR ''/''"
  shows "\<exists>d' out'.
      prsr_next_token d0 out tv = Some (0, d', out', tv_context tv)
      \<and> tok_type out' = TOKEN_STRING \<and> tok_p out' = curr d"
proof -
  from assms(3) have nz: "peek_char d 0 \<noteq> NUL" by simp
  have "curr (fst (string_loop (d\<lparr>flag := 0\<rparr>) backtick (- 1))) = curr d"
    using string_loop_frame [of "d\<lparr>flag := 0\<rparr>" backtick "- 1"] by (simp add: frame_def)
  with eat_token_resume [OF assms(2) nz, of tv] assms(1) show ?thesis
    by (simp add: prsr_next_token_def Let_def type_negative_def)
qed

text \<open>
  Claim C5, as amended. When no flag is armed (the dispatcher reaches the slash rule)
  and the cursor, after the whitespace loop, stands on a \<^verbatim>\<open>/\<close> that begins no comment,
  the oracle is called exactly once in that token call: the context the call leaves is the
  one that a single call of the oracle leaves. A negative answer is returned as it is; on
  the answer zero the call stores a REGEXP token that begins at the slash; on a positive
  answer it stores an OP token that begins at the slash. When the resume flag is armed and
  the cursor, after the whitespace loop, stands on a \<^verbatim>\<open>/\<close> (whatever follows it), the
  string scanner takes the slash as template text: the call returns 0 and stores a STRING
  token that begins at the slash, and the oracle is not called, the context the call
  leaves being the one it was given.
\<close>

theorem C5_slash_oracle:
  "(\<forall>d0 d out (tv :: 'a tokenvalue) hv ctx1.
      skip_ws d0 = Some d \<and> no_flag d \<and> peek_char d 0 = CHR ''/''
      \<and> peek_char d 1 \<noteq> CHR ''/'' \<and> peek_char d 1 \<noteq> CHR ''*''
      \<and> tv_check tv (tv_context tv) = (hv, ctx1)
      \<longrightarrow> (\<exists>ret d' out'.
            prsr_next_token d0 out tv = Some (ret, d', out', ctx1)
            \<and> (hv < 0 \<longrightarrow> ret = hv \<and> curr d' = curr d)
            \<and> (hv = 0 \<longrightarrow> ret = 0 \<and> tok_type out' = TOKEN_REGEXP \<and> tok_p out' = curr d)
            \<and> (0 < hv \<longrightarrow> ret = 0 \<and> tok_type out' = TOKEN_OP \<and> tok_p out' = curr d
                  \<and> tok_len out' = (if peek_char d 1 = CHR ''='' then 2 else 1))))
   \<and> (\<forall>d0 d out (tv :: 'a tokenvalue).
      skip_ws d0 = Some d \<and> flag d = FLAG__RESUME_LIT \<and> peek_char d 0 = CHR ''/''
      \<longrightarrow> (\<exists>d' out'.
            prsr_next_token d0 out tv = Some (0, d', out', tv_context tv)
            \<and> tok_type out' = TOKEN_STRING \<and> tok_p out' = curr d))"
proof (rule conjI)
  show "\<forall>d0 d out (tv :: 'a tokenvalue) hv ctx1.
      skip_ws d0 = Some d \<and> no_flag d \<and> peek_char d 0 = CHR ''/''
      \<and> peek_char d 1 \<noteq> CHR ''/'' \<and> peek_char d 1 \<noteq> CHR ''*''
      \<and> tv_check tv (tv_context tv) = (hv, ctx1)
      \<longrightarrow> (\<exists>ret d' out'.
            prsr_next_token d0 out tv = Some (ret, d', out', ctx1)
            \<and> (hv < 0 \<longrightarrow> ret = hv \<and> curr d' = curr d)
            \<and> (hv = 0 \<longrightarrow> ret = 0 \<and> tok_type out' = TOKEN_REGEXP \<and> tok_p out' = curr d)
            \<and> (0 < hv \<longrightarrow> ret = 0 \<and> tok_type out' = TOKEN_OP \<and> tok_p out' = curr d
                  \<and> tok_len out' = (if peek_char d 1 = CHR ''='' then 2 else 1)))"
  proof (intro allI impI)
    fix d0 d out and tv :: "'a tokenvalue" and hv ctx1
    assume "skip_ws d0 = Some d \<and> no_flag d \<and> peek_char d 0 = CHR ''/''
      \<and> peek_char d 1 \<noteq> CHR ''/'' \<and> peek_char d 1 \<noteq> CHR ''*''
      \<and> tv_check tv (tv_context tv) = (hv, ctx1)"
    then have a: "skip_ws d0 = Some d" "no_flag d" "peek_char d 0 = CHR ''/''"
      "peek_char d 1 \<noteq> CHR ''/''" "peek_char d 1 \<noteq> CHR ''*''"
      "tv_check tv (tv_context tv) = (hv, ctx1)"
      by simp_all
    show "\<exists>ret d' out'.
            prsr_next_token d0 out tv = Some (ret, d', out', ctx1)
            \<and> (hv < 0 \<longrightarrow> ret = hv \<and> curr d' = curr d)
            \<and> (hv = 0 \<longrightarrow> ret = 0 \<and> tok_type out' = TOKEN_REGEXP \<and> tok_p out' = curr d)
            \<and> (0 < hv \<longrightarrow> ret = 0 \<and> tok_type out' = TOKEN_OP \<and> tok_p out' = curr d
                  \<and> tok_len out' = (if peek_char d 1 = CHR ''='' then 2 else 1))"
      by (rule slash_oracle_no_flag [OF a])
  qed
next
  show "\<forall>d0 d out (tv :: 'a tokenvalue).
      skip_ws d0 = Some d \<and> flag d = FLAG__RESUME_LIT \<and> peek_char d 0 = CHR ''/''
      \<longrightarrow> (\<exists>d' out'.
            prsr_next_token d0 out tv = Some (0, d', out', tv_context tv)
            \<and> tok_type out' = TOKEN_STRING \<and> tok_p out' = curr d)"
  proof (intro allI impI)
    fix d0 d out and tv :: "'a tokenvalue"
    assume "skip_ws d0 = Some d \<and> flag d = FLAG__RESUME_LIT \<and> peek_char d 0 = CHR ''/''"
    then have a: "skip_ws d0 = Some d" "flag d = FLAG__RESUME_LIT" "peek_char d 0 = CHR ''/''"
      by simp_all
    show "\<exists>d' out'.
            prsr_next_token d0 out tv = Some (0, d', out', tv_context tv)
            \<and> tok_type out' = TOKEN_STRING \<and> tok_p out' = curr d"
      by (rule slash_resume_no_oracle [OF a])
  qed
qed

text \<open>
  A witness: the second call on \<^verbatim>\<open>a/b/g\<close>, with an oracle that answers 0 and counts
  its calls, and the fifth call on \<^verbatim>\<open>`${x}/z`\<close>, where the resume flag is armed.
\<close>

theorem C5_slash_oracle_witness:
  "skip_ws ((prsr_init_token (''a/b/g'' @ [NUL]))\<lparr>curr := 1\<rparr>)
     = Some ((prsr_init_token (''a/b/g'' @ [NUL]))\<lparr>curr := 1\<rparr>)
   \<and> no_flag ((prsr_init_token (''a/b/g'' @ [NUL]))\<lparr>curr := 1\<rparr>)
   \<and> peek_char ((prsr_init_token (''a/b/g'' @ [NUL]))\<lparr>curr := 1\<rparr>) 0 = CHR ''/''
   \<and> peek_char ((prsr_init_token (''a/b/g'' @ [NUL]))\<lparr>curr := 1\<rparr>) 1 \<noteq> CHR ''/''
   \<and> peek_char ((prsr_init_token (''a/b/g'' @ [NUL]))\<lparr>curr := 1\<rparr>) 1 \<noteq> CHR ''*''
   \<and> tv_check (const_oracle 0) (tv_context (const_oracle 0)) = (0, 1)
   \<and> (\<exists>ret d' out'.
        prsr_next_token ((prsr_init_token (''a/b/g'' @ [NUL]))\<lparr>curr := 1\<rparr>) empty_token
          (const_oracle 0) = Some (ret, d', out', 1)
        \<and> ret = 0 \<and> tok_type out' = TOKEN_REGEXP \<and> tok_p out' = 1)
   \<and> skip_ws ((prsr_init_token (''`${x}/z`'' @ [NUL]))
         \<lparr>curr := 5, flag := FLAG__RESUME_LIT, stack := [1, 0, 0, 0, 0, 0, 0, 0]\<rparr>)
       = Some ((prsr_init_token (''`${x}/z`'' @ [NUL]))
         \<lparr>curr := 5, flag := FLAG__RESUME_LIT, stack := [1, 0, 0, 0, 0, 0, 0, 0]\<rparr>)
   \<and> flag ((prsr_init_token (''`${x}/z`'' @ [NUL]))
         \<lparr>curr := 5, flag := FLAG__RESUME_LIT, stack := [1, 0, 0, 0, 0, 0, 0, 0]\<rparr>)
       = FLAG__RESUME_LIT
   \<and> peek_char ((prsr_init_token (''`${x}/z`'' @ [NUL]))
         \<lparr>curr := 5, flag := FLAG__RESUME_LIT, stack := [1, 0, 0, 0, 0, 0, 0, 0]\<rparr>) 0 = CHR ''/''
   \<and> (\<exists>d' out'.
        prsr_next_token ((prsr_init_token (''`${x}/z`'' @ [NUL]))
            \<lparr>curr := 5, flag := FLAG__RESUME_LIT, stack := [1, 0, 0, 0, 0, 0, 0, 0]\<rparr>)
          empty_token (const_oracle 0) = Some (0, d', out', 0)
        \<and> tok_type out' = TOKEN_STRING \<and> tok_p out' = 5)"
proof -
  let ?d = "(prsr_init_token (''a/b/g'' @ [NUL]))\<lparr>curr := 1\<rparr>"
  let ?e = "(prsr_init_token (''`${x}/z`'' @ [NUL]))
         \<lparr>curr := 5, flag := FLAG__RESUME_LIT, stack := [1, 0, 0, 0, 0, 0, 0, 0]\<rparr>"
  have h1: "skip_ws ?d = Some ?d" by code_simp
  have h2: "no_flag ?d" by code_simp
  have h3: "peek_char ?d 0 = CHR ''/''" by code_simp
  have h4: "peek_char ?d 1 \<noteq> CHR ''/''" by code_simp
  have h5: "peek_char ?d 1 \<noteq> CHR ''*''" by code_simp
  have h6: "tv_check (const_oracle 0) (tv_context (const_oracle 0)) = (0, 1)" by code_simp
  have h7: "curr ?d = 1" by code_simp
  have k1: "skip_ws ?e = Some ?e" by code_simp
  have k2: "flag ?e = FLAG__RESUME_LIT" by code_simp
  have k3: "peek_char ?e 0 = CHR ''/''" by code_simp
  have k4: "curr ?e = 5" by code_simp
  have k5: "tv_context (const_oracle 0) = 0" by code_simp
  note c5 = C5_slash_oracle [where 'a = nat]
  from c5 [THEN conjunct1, THEN spec [where x = ?d], THEN spec [where x = ?d],
      THEN spec [where x = empty_token], THEN spec [where x = "const_oracle 0"],
      THEN spec [where x = 0], THEN spec [where x = 1]]
    h1 h2 h3 h4 h5 h6 h7
  have p1: "\<exists>ret d' out'.
        prsr_next_token ?d empty_token (const_oracle 0) = Some (ret, d', out', 1)
        \<and> ret = 0 \<and> tok_type out' = TOKEN_REGEXP \<and> tok_p out' = 1"
    by simp
  from c5 [THEN conjunct2, THEN spec [where x = ?e], THEN spec [where x = ?e],
      THEN spec [where x = empty_token], THEN spec [where x = "const_oracle 0"]]
    k1 k2 k3 k4 k5
  have p2: "\<exists>d' out'.
        prsr_next_token ?e empty_token (const_oracle 0) = Some (0, d', out', 0)
        \<and> tok_type out' = TOKEN_STRING \<and> tok_p out' = 5"
    by simp
  from h1 h2 h3 h4 h5 h6 p1 k1 k2 k3 p2 show ?thesis
    by (intro conjI)
qed

text \<open>
  The counterexample to C5 as stated: on the input \<^verbatim>\<open>`${x}/z`\<close> the first four calls
  store STRING, T\_BRACE, LIT and CLOSE and arm the resume flag. The fifth call stands on a
  \<^verbatim>\<open>/\<close> that is followed by \<^verbatim>\<open>z\<close>, so it begins no comment; the call stores a STRING
  token and leaves the oracle's call count at 0.
\<close>

theorem C5_counterexample:
  "after_calls 4 (prsr_init_token (''`${x}/z`'' @ [NUL])) empty_token (const_oracle 0) =
     Some ((prsr_init_token (''`${x}/z`'' @ [NUL]))
             \<lparr>curr := 5, flag := FLAG__RESUME_LIT, stack := [1, 0, 0, 0, 0, 0, 0, 0]\<rparr>,
           tok TOKEN_CLOSE 4 1 1 False, 0)
   \<and> peek_char ((prsr_init_token (''`${x}/z`'' @ [NUL]))
             \<lparr>curr := 5, flag := FLAG__RESUME_LIT, stack := [1, 0, 0, 0, 0, 0, 0, 0]\<rparr>) 0 = CHR ''/''
   \<and> peek_char ((prsr_init_token (''`${x}/z`'' @ [NUL]))
             \<lparr>curr := 5, flag := FLAG__RESUME_LIT, stack := [1, 0, 0, 0, 0, 0, 0, 0]\<rparr>) 1 = CHR ''z''
   \<and> prsr_next_token ((prsr_init_token (''`${x}/z`'' @ [NUL]))
             \<lparr>curr := 5, flag := FLAG__RESUME_LIT, stack := [1, 0, 0, 0, 0, 0, 0, 0]\<rparr>)
        (tok TOKEN_CLOSE 4 1 1 False) (const_oracle 0) =
       Some (0, (prsr_init_token (''`${x}/z`'' @ [NUL]))\<lparr>curr := 8, stack := [1, 0, 0, 0, 0, 0, 0, 0]\<rparr>,
             tok TOKEN_STRING 5 3 1 False, 0)"
  by code_simp

subsection \<open>C10: whitespace after the closing brace of a substitution\<close>

text \<open>
  Claim C10. When the resume flag is armed, a call of \<^verbatim>\<open>prsr_next_token\<close> that returns
  has run the whitespace loop first: the token it stores begins after the whole run of
  whitespace bytes that follows the cursor, its line number counts the newlines of that
  run, and the byte it begins at is no whitespace. The token is the resumed STRING (EOF
  at the end of the buffer), so the skipped bytes are no part of it; the call returns 0.
\<close>

theorem C10_whitespace_before_resume:
  assumes "flag d0 = FLAG__RESUME_LIT"
    and "prsr_next_token d0 out tv = Some (ret, d', out', ctx')"
  shows "ret = 0
     \<and> tok_p out' = curr d0 + int (length (takeWhile isspace (drop (nat (curr d0)) (buf d0))))
     \<and> tok_line_no out' =
         line_no d0 + int (count_list (takeWhile isspace (drop (nat (curr d0)) (buf d0))) newline)
     \<and> tok_type out' =
         (if peek_char (d0\<lparr>curr := tok_p out'\<rparr>) 0 = NUL then TOKEN_EOF else TOKEN_STRING)
     \<and> (\<exists>c. byte_at (buf d0) (tok_p out') = Some c \<and> \<not> isspace c)"
proof -
  from assms(2) obtain d where sk: "skip_ws d0 = Some d"
    by (cases "skip_ws d0") (auto simp: prsr_next_token_def)
  note sp = skip_ws_spec [OF sk]
  note r = prsr_next_token_resume [OF assms(1) sk assms(2)]
  from sp have pk: "peek_char (d0\<lparr>curr := curr d\<rparr>) 0 = peek_char d 0"
    by (cases d0) (simp add: peek_char_def Let_def)
  from sp have bf: "buf d = buf d0" by (cases d0) simp
  from sp have
    "curr d = curr d0 + int (length (takeWhile isspace (drop (nat (curr d0)) (buf d0))))"
    "line_no d =
       line_no d0 + int (count_list (takeWhile isspace (drop (nat (curr d0)) (buf d0))) newline)"
    by (cases d0, simp)+
  with r pk bf skip_ws_stop [OF sk] show ?thesis by simp
qed

text \<open>
  A witness: the fifth call on a template whose substitution is followed by a newline
  and two blanks, \<^verbatim>\<open>`${x}\<close> newline \<^verbatim>\<open>  z`\<close>. The resumed STRING is \<^verbatim>\<open>z`\<close> at offset
  8, on line 2.
\<close>

theorem C10_whitespace_before_resume_witness:
  "after_calls 4 (prsr_init_token (''`${x}'' @ [newline] @ ''  z`'' @ [NUL])) empty_token
       (const_oracle 0) =
     Some ((prsr_init_token (''`${x}'' @ [newline] @ ''  z`'' @ [NUL]))
             \<lparr>curr := 5, flag := FLAG__RESUME_LIT, stack := [1, 0, 0, 0, 0, 0, 0, 0]\<rparr>,
           tok TOKEN_CLOSE 4 1 1 False, 0)
   \<and> prsr_next_token ((prsr_init_token (''`${x}'' @ [newline] @ ''  z`'' @ [NUL]))
             \<lparr>curr := 5, flag := FLAG__RESUME_LIT, stack := [1, 0, 0, 0, 0, 0, 0, 0]\<rparr>)
        (tok TOKEN_CLOSE 4 1 1 False) (const_oracle 0) =
       Some (0, (prsr_init_token (''`${x}'' @ [newline] @ ''  z`'' @ [NUL]))
                  \<lparr>curr := 10, line_no := 2, stack := [1, 0, 0, 0, 0, 0, 0, 0]\<rparr>,
             tok TOKEN_STRING 8 2 2 False, 0)
   \<and> tok_p (tok TOKEN_STRING 8 2 2 False) =
       5 + int (length (takeWhile isspace (drop 5 (''`${x}'' @ [newline] @ ''  z`'' @ [NUL]))))"
proof -
  let ?d = "(prsr_init_token (''`${x}'' @ [newline] @ ''  z`'' @ [NUL]))
             \<lparr>curr := 5, flag := FLAG__RESUME_LIT, stack := [1, 0, 0, 0, 0, 0, 0, 0]\<rparr>"
  let ?d' = "(prsr_init_token (''`${x}'' @ [newline] @ ''  z`'' @ [NUL]))
                  \<lparr>curr := 10, line_no := 2, stack := [1, 0, 0, 0, 0, 0, 0, 0]\<rparr>"
  have h0: "after_calls 4 (prsr_init_token (''`${x}'' @ [newline] @ ''  z`'' @ [NUL])) empty_token
       (const_oracle 0) = Some (?d, tok TOKEN_CLOSE 4 1 1 False, 0)"
    by code_simp
  have h1: "flag ?d = FLAG__RESUME_LIT" by code_simp
  have h2: "prsr_next_token ?d (tok TOKEN_CLOSE 4 1 1 False) (const_oracle 0) =
       Some (0, ?d', tok TOKEN_STRING 8 2 2 False, 0)"
    by code_simp
  have h3: "curr ?d = 5" "buf ?d = ''`${x}'' @ [newline] @ ''  z`'' @ [NUL]" by code_simp+
  from C10_whitespace_before_resume [OF h1 h2] h3
  have "tok_p (tok TOKEN_STRING 8 2 2 False) =
       5 + int (length (takeWhile isspace (drop 5 (''`${x}'' @ [newline] @ ''  z`'' @ [NUL]))))"
    by simp
  with h0 h2 show ?thesis by simp
qed

subsection \<open>C2: the token after the closing brace of a substitution\<close>

text \<open>
  Claim C2, as amended. When the dispatcher stands on \<^verbatim>\<open>}\<close>, no flag is armed and the
  entry popped carries template bit 1, the call returns 0, stores the CLOSE token of
  length 1 on that \<^verbatim>\<open>}\<close>, moves the cursor behind it and arms the resume flag. Whenever
  a call leaves the resume flag armed, it was such a call, and the next call returns 0 and
  resumes the template literal with a STRING token (EOF at the end of the buffer) that
  begins after that \<^verbatim>\<open>}\<close>: the brace is the CLOSE token's byte and no byte of the STRING.
  For the input \<^verbatim>\<open>`hi ${x} bye`\<close> the token stream is STRING(4) T\_BRACE(2) LIT(1)
  CLOSE(1) STRING(4) EOF(0); the final STRING begins at offset 9 and covers \<^verbatim>\<open>bye`\<close>, the
  blank after the brace being skipped as whitespace.
\<close>

theorem C2_template_resume:
  "(\<forall>d0 d out (tv :: 'a tokenvalue).
      skip_ws d0 = Some d \<and> no_flag d \<and> peek_char d 0 = CHR ''}'' \<and> template_bit_on_top d
      \<longrightarrow> prsr_next_token d0 out tv =
            Some (0, d\<lparr>flag := FLAG__RESUME_LIT, depth := depth d - 1, curr := curr d + 1\<rparr>,
                  out\<lparr>tok_line_no := line_no d, tok_p := curr d, tok_len := 1,
                      tok_type := TOKEN_CLOSE, lit_next_colon := False\<rparr>,
                  tv_context tv))
   \<and> (\<forall>d0 out0 (tv0 :: 'a tokenvalue) r1 d1 out1 c1 (tv1 :: 'b tokenvalue) r2 d2 out2 c2.
      prsr_next_token d0 out0 tv0 = Some (r1, d1, out1, c1) \<and> flag d1 = FLAG__RESUME_LIT
      \<and> prsr_next_token d1 out1 tv1 = Some (r2, d2, out2, c2)
      \<longrightarrow> r1 = 0 \<and> tok_type out1 = TOKEN_CLOSE \<and> tok_len out1 = 1
          \<and> byte_at (buf d1) (tok_p out1) = Some (CHR ''}'')
          \<and> r2 = 0 \<and> (tok_type out2 = TOKEN_STRING \<or> tok_type out2 = TOKEN_EOF)
          \<and> tok_p out1 < tok_p out2
          \<and> (\<exists>d. skip_ws d0 = Some d \<and> template_bit_on_top d \<and> depth d1 = depth d - 1))
   \<and> token_stream 6 (prsr_init_token (''`hi ${x} bye`'' @ [NUL])) empty_token (const_oracle 0) =
       Some [(0, tok TOKEN_STRING 0 4 1 False), (0, tok TOKEN_T_BRACE 4 2 1 False),
             (0, tok TOKEN_LIT 6 1 1 False), (0, tok TOKEN_CLOSE 7 1 1 False),
             (0, tok TOKEN_STRING 9 4 1 False), (0, tok TOKEN_EOF 13 0 1 False)]
   \<and> take 4 (drop 9 (''`hi ${x} bye`'' @ [NUL])) = ''bye`''"
proof -
  have f: "\<forall>d0 d out (tv :: 'a tokenvalue).
      skip_ws d0 = Some d \<and> no_flag d \<and> peek_char d 0 = CHR ''}'' \<and> template_bit_on_top d
      \<longrightarrow> prsr_next_token d0 out tv =
            Some (0, d\<lparr>flag := FLAG__RESUME_LIT, depth := depth d - 1, curr := curr d + 1\<rparr>,
                  out\<lparr>tok_line_no := line_no d, tok_p := curr d, tok_len := 1,
                      tok_type := TOKEN_CLOSE, lit_next_colon := False\<rparr>,
                  tv_context tv)"
  proof (intro allI impI)
    fix d0 d out and tv :: "'a tokenvalue"
    assume "skip_ws d0 = Some d \<and> no_flag d \<and> peek_char d 0 = CHR ''}''
      \<and> template_bit_on_top d"
    then have a: "skip_ws d0 = Some d" "no_flag d" "peek_char d 0 = CHR ''}''"
      "template_bit_on_top d"
      by simp_all
    from a(1) eat_token_brace_template [OF a(2,3,4), of tv]
    show "prsr_next_token d0 out tv =
            Some (0, d\<lparr>flag := FLAG__RESUME_LIT, depth := depth d - 1, curr := curr d + 1\<rparr>,
                  out\<lparr>tok_line_no := line_no d, tok_p := curr d, tok_len := 1,
                      tok_type := TOKEN_CLOSE, lit_next_colon := False\<rparr>,
                  tv_context tv)"
      by (simp add: prsr_next_token_def Let_def type_negative_def)
  qed
  have g: "\<forall>d0 out0 (tv0 :: 'a tokenvalue) r1 d1 out1 c1 (tv1 :: 'b tokenvalue) r2 d2 out2 c2.
      prsr_next_token d0 out0 tv0 = Some (r1, d1, out1, c1) \<and> flag d1 = FLAG__RESUME_LIT
      \<and> prsr_next_token d1 out1 tv1 = Some (r2, d2, out2, c2)
      \<longrightarrow> r1 = 0 \<and> tok_type out1 = TOKEN_CLOSE \<and> tok_len out1 = 1
          \<and> byte_at (buf d1) (tok_p out1) = Some (CHR ''}'')
          \<and> r2 = 0 \<and> (tok_type out2 = TOKEN_STRING \<or> tok_type out2 = TOKEN_EOF)
          \<and> tok_p out1 < tok_p out2
          \<and> (\<exists>d. skip_ws d0 = Some d \<and> template_bit_on_top d \<and> depth d1 = depth d - 1)"
  proof (intro allI impI)
    fix d0 out0 and tv0 :: "'a tokenvalue" and r1 d1 out1 c1 and tv1 :: "'b tokenvalue"
      and r2 d2 out2 c2
    assume "prsr_next_token d0 out0 tv0 = Some (r1, d1, out1, c1) \<and> flag d1 = FLAG__RESUME_LIT
        \<and> prsr_next_token d1 out1 tv1 = Some (r2, d2, out2, c2)"
    then have a: "prsr_next_token d0 out0 tv0 = Some (r1, d1, out1, c1)"
      "flag d1 = FLAG__RESUME_LIT" "prsr_next_token d1 out1 tv1 = Some (r2, d2, out2, c2)"
      by simp_all
    show "r1 = 0 \<and> tok_type out1 = TOKEN_CLOSE \<and> tok_len out1 = 1
          \<and> byte_at (buf d1) (tok_p out1) = Some (CHR ''}'')
          \<and> r2 = 0 \<and> (tok_type out2 = TOKEN_STRING \<or> tok_type out2 = TOKEN_EOF)
          \<and> tok_p out1 < tok_p out2
          \<and> (\<exists>d. skip_ws d0 = Some d \<and> template_bit_on_top d \<and> depth d1 = depth d - 1)"
      by (rule close_then_resume [OF a])
  qed
  have s: "token_stream 6 (prsr_init_token (''`hi ${x} bye`'' @ [NUL])) empty_token (const_oracle 0) =
       Some [(0, tok TOKEN_STRING 0 4 1 False), (0, tok TOKEN_T_BRACE 4 2 1 False),
             (0, tok TOKEN_LIT 6 1 1 False), (0, tok TOKEN_CLOSE 7 1 1 False),
             (0, tok TOKEN_STRING 9 4 1 False), (0, tok TOKEN_EOF 13 0 1 False)]"
    by code_simp
  have t: "take 4 (drop 9 (''`hi ${x} bye`'' @ [NUL])) = ''bye`''" by code_simp
  show ?thesis by (rule conjI [OF f conjI [OF g conjI [OF s t]]])
qed

text \<open>
  A witness: the fourth and the fifth call on \<^verbatim>\<open>`hi ${x} bye`\<close>. Before the fourth
  call the cursor stands on the \<^verbatim>\<open>}\<close> at offset 7, at depth 1 with template bit 1.
\<close>

theorem C2_template_resume_witness:
  "skip_ws ((prsr_init_token (''`hi ${x} bye`'' @ [NUL]))
        \<lparr>curr := 7, depth := 1, stack := [1, 0, 0, 0, 0, 0, 0, 0]\<rparr>) =
     Some ((prsr_init_token (''`hi ${x} bye`'' @ [NUL]))
        \<lparr>curr := 7, depth := 1, stack := [1, 0, 0, 0, 0, 0, 0, 0]\<rparr>)
   \<and> no_flag ((prsr_init_token (''`hi ${x} bye`'' @ [NUL]))
        \<lparr>curr := 7, depth := 1, stack := [1, 0, 0, 0, 0, 0, 0, 0]\<rparr>)
   \<and> peek_char ((prsr_init_token (''`hi ${x} bye`'' @ [NUL]))
        \<lparr>curr := 7, depth := 1, stack := [1, 0, 0, 0, 0, 0, 0, 0]\<rparr>) 0 = CHR ''}''
   \<and> template_bit_on_top ((prsr_init_token (''`hi ${x} bye`'' @ [NUL]))
        \<lparr>curr := 7, depth := 1, stack := [1, 0, 0, 0, 0, 0, 0, 0]\<rparr>)
   \<and> prsr_next_token
       ((prsr_init_token (''`hi ${x} bye`'' @ [NUL]))
          \<lparr>curr := 7, depth := 1, stack := [1, 0, 0, 0, 0, 0, 0, 0]\<rparr>)
       (tok TOKEN_LIT 6 1 1 False) (const_oracle 0) =
       Some (0, (prsr_init_token (''`hi ${x} bye`'' @ [NUL]))
                  \<lparr>curr := 8, flag := FLAG__RESUME_LIT, stack := [1, 0, 0, 0, 0, 0, 0, 0]\<rparr>,
             tok TOKEN_CLOSE 7 1 1 False, 0)
   \<and> flag ((prsr_init_token (''`hi ${x} bye`'' @ [NUL]))
                \<lparr>curr := 8, flag := FLAG__RESUME_LIT, stack := [1, 0, 0, 0, 0, 0, 0, 0]\<rparr>)
       = FLAG__RESUME_LIT
   \<and> prsr_next_token
       ((prsr_init_token (''`hi ${x} bye`'' @ [NUL]))
          \<lparr>curr := 8, flag := FLAG__RESUME_LIT, stack := [1, 0, 0, 0, 0, 0, 0, 0]\<rparr>)
       (tok TOKEN_CLOSE 7 1 1 False) (const_oracle 0) =
       Some (0, (prsr_init_token (''`hi ${x} bye`'' @ [NUL]))
                  \<lparr>curr := 13, stack := [1, 0, 0, 0, 0, 0, 0, 0]\<rparr>,
             tok TOKEN_STRING 9 4 1 False, 0)
   \<and> tok_p (tok TOKEN_CLOSE 7 1 1 False) < tok_p (tok TOKEN_STRING 9 4 1 False)"
proof -
  let ?d3 = "(prsr_init_token (''`hi ${x} bye`'' @ [NUL]))
        \<lparr>curr := 7, depth := 1, stack := [1, 0, 0, 0, 0, 0, 0, 0]\<rparr>"
  let ?d4 = "(prsr_init_token (''`hi ${x} bye`'' @ [NUL]))
                \<lparr>curr := 8, flag := FLAG__RESUME_LIT, stack := [1, 0, 0, 0, 0, 0, 0, 0]\<rparr>"
  let ?d5 = "(prsr_init_token (''`hi ${x} bye`'' @ [NUL]))
                  \<lparr>curr := 13, stack := [1, 0, 0, 0, 0, 0, 0, 0]\<rparr>"
  have a1: "skip_ws ?d3 = Some ?d3" by code_simp
  have a2: "no_flag ?d3" by code_simp
  have a3: "peek_char ?d3 0 = CHR ''}''" by code_simp
  have a4: "template_bit_on_top ?d3" by code_simp
  have e: "Some (0 :: int, ?d3\<lparr>flag := FLAG__RESUME_LIT, depth := depth ?d3 - 1, curr := curr ?d3 + 1\<rparr>,
                  (tok TOKEN_LIT 6 1 1 False)\<lparr>tok_line_no := line_no ?d3, tok_p := curr ?d3,
                      tok_len := 1, tok_type := TOKEN_CLOSE, lit_next_colon := False\<rparr>,
                  tv_context (const_oracle 0)) =
     Some (0, ?d4, tok TOKEN_CLOSE 7 1 1 False, 0)"
    by code_simp
  from C2_template_resume [where 'a = nat and 'b = nat] have
    "\<forall>d0 d out (tv :: nat tokenvalue).
      skip_ws d0 = Some d \<and> no_flag d \<and> peek_char d 0 = CHR ''}'' \<and> template_bit_on_top d
      \<longrightarrow> prsr_next_token d0 out tv =
            Some (0, d\<lparr>flag := FLAG__RESUME_LIT, depth := depth d - 1, curr := curr d + 1\<rparr>,
                  out\<lparr>tok_line_no := line_no d, tok_p := curr d, tok_len := 1,
                      tok_type := TOKEN_CLOSE, lit_next_colon := False\<rparr>,
                  tv_context tv)"
    by (rule conjunct1)
  with a1 a2 a3 a4 have p: "prsr_next_token ?d3 (tok TOKEN_LIT 6 1 1 False) (const_oracle 0) =
     Some (0, ?d3\<lparr>flag := FLAG__RESUME_LIT, depth := depth ?d3 - 1, curr := curr ?d3 + 1\<rparr>,
                  (tok TOKEN_LIT 6 1 1 False)\<lparr>tok_line_no := line_no ?d3, tok_p := curr ?d3,
                      tok_len := 1, tok_type := TOKEN_CLOSE, lit_next_colon := False\<rparr>,
                  tv_context (const_oracle 0))"
    by blast
  have h1: "prsr_next_token ?d3 (tok TOKEN_LIT 6 1 1 False) (const_oracle 0) =
     Some (0, ?d4, tok TOKEN_CLOSE 7 1 1 False, 0)"
    by (rule trans [OF p e])
  have h2: "flag ?d4 = FLAG__RESUME_LIT" by code_simp
  have h3: "prsr_next_token ?d4 (tok TOKEN_CLOSE 7 1 1 False) (const_oracle 0) =
       Some (0, ?d5, tok TOKEN_STRING 9 4 1 False, 0)"
    by code_simp
  from C2_template_resume [where 'a = nat and 'b = nat] have
    "\<forall>d0 out0 (tv0 :: nat tokenvalue) r1 d1 out1 c1 (tv1 :: nat tokenvalue) r2 d2 out2 c2.
      prsr_next_token d0 out0 tv0 = Some (r1, d1, out1, c1) \<and> flag d1 = FLAG__RESUME_LIT
      \<and> prsr_next_token d1 out1 tv1 = Some (r2, d2, out2, c2)
      \<longrightarrow> r1 = 0 \<and> tok_type out1 = TOKEN_CLOSE \<and> tok_len out1 = 1
          \<and> byte_at (buf d1) (tok_p out1) = Some (CHR ''}'')
          \<and> r2 = 0 \<and> (tok_type out2 = TOKEN_STRING \<or> tok_type out2 = TOKEN_EOF)
          \<and> tok_p out1 < tok_p out2
          \<and> (\<exists>d. skip_ws d0 = Some d \<and> template_bit_on_top d \<and> depth d1 = depth d - 1)"
    by (rule conjunct1 [OF conjunct2])
  with h1 h2 h3
  have "tok_p (tok TOKEN_CLOSE 7 1 1 False) < tok_p (tok TOKEN_STRING 9 4 1 False)"
    by blast
  with a1 a2 a3 a4 h1 h2 h3 show ?thesis by simp
qed

text \<open>
  The counterexample to C2 as stated: after the first four calls on \<^verbatim>\<open>`hi ${x} bye`\<close>
  (the fourth stores CLOSE at offset 7, the \<^verbatim>\<open>}\<close>), the fifth call stores a STRING of
  length 4 at offset 9, whose first byte is \<^verbatim>\<open>b\<close>: not a STRING of length 5 whose first
  byte is the \<^verbatim>\<open>}\<close>.
\<close>

theorem C2_counterexample:
  "after_calls 4 (prsr_init_token (''`hi ${x} bye`'' @ [NUL])) empty_token (const_oracle 0) =
     Some ((prsr_init_token (''`hi ${x} bye`'' @ [NUL]))
             \<lparr>curr := 8, flag := FLAG__RESUME_LIT, stack := [1, 0, 0, 0, 0, 0, 0, 0]\<rparr>,
           tok TOKEN_CLOSE 7 1 1 False, 0)
   \<and> prsr_next_token
       ((prsr_init_token (''`hi ${x} bye`'' @ [NUL]))
          \<lparr>curr := 8, flag := FLAG__RESUME_LIT, stack := [1, 0, 0, 0, 0, 0, 0, 0]\<rparr>)
       (tok TOKEN_CLOSE 7 1 1 False) (const_oracle 0) =
       Some (0, (prsr_init_token (''`hi ${x} bye`'' @ [NUL]))
                  \<lparr>curr := 13, stack := [1, 0, 0, 0, 0, 0, 0, 0]\<rparr>,
             tok TOKEN_STRING 9 4 1 False, 0)
   \<and> (''`hi ${x} bye`'' @ [NUL]) ! 7 = CHR ''}''
   \<and> (''`hi ${x} bye`'' @ [NUL]) ! 9 = CHR ''b''"
  by code_simp

subsection \<open>C8: long comments\<close>

text \<open>
  Claim C8, as amended. For the input \<^verbatim>\<open>/* line1\<close> newline \<^verbatim>\<open>line2 */x\<close> the scanner
  emits COMMENT(17) LIT(1) EOF(0): the comment has 17 bytes (\<^verbatim>\<open>len + 2\<close> with
  \<^verbatim>\<open>len = at - search + 2\<close>), and LIT and EOF are reported at line 2. In general, when no
  flag is armed and the cursor stands on \<^verbatim>\<open>/*\<close> and \<^verbatim>\<open>strstr\<close> finds the next \<^verbatim>\<open>*/\<close>
  at offset \<open>at\<close>, the call returns 0 and stores a COMMENT token that runs from the cursor
  through that \<^verbatim>\<open>*/\<close>, reported at the line of its first byte; the cursor moves behind the
  \<^verbatim>\<open>*/\<close>, and \<^verbatim>\<open>line_no\<close> grows by the number of newlines between \<^verbatim>\<open>/*\<close> and
  \<^verbatim>\<open>*/\<close>.
\<close>

theorem C8_long_comment:
  "(\<forall>d0 d out (tv :: 'a tokenvalue) at.
      skip_ws d0 = Some d \<and> no_flag d \<and> peek_char d 0 = CHR ''/'' \<and> peek_char d 1 = CHR ''*''
      \<and> strstr (buf d) (curr d + 2) ''*/'' = Some at
      \<longrightarrow> prsr_next_token d0 out tv =
            Some (0,
                  d\<lparr>flag := 0,
                    line_no := line_no d + int (count_list
                      (take (nat (at - (curr d + 2))) (drop (nat (curr d + 2)) (buf d))) newline),
                    curr := at + 2\<rparr>,
                  out\<lparr>tok_line_no := line_no d, tok_p := curr d, tok_len := at + 2 - curr d,
                      tok_type := TOKEN_COMMENT, lit_next_colon := False\<rparr>,
                  tv_context tv)
          \<and> curr d + 2 \<le> at \<and> prefix ''*/'' (drop (nat at) (buf d)))
   \<and> token_stream 3 (prsr_init_token (''/* line1'' @ [newline] @ ''line2 */x'' @ [NUL]))
        empty_token (const_oracle 0) =
       Some [(0, tok TOKEN_COMMENT 0 17 1 False), (0, tok TOKEN_LIT 17 1 2 False),
             (0, tok TOKEN_EOF 18 0 2 False)]"
proof -
  have g: "\<forall>d0 d out (tv :: 'a tokenvalue) at.
      skip_ws d0 = Some d \<and> no_flag d \<and> peek_char d 0 = CHR ''/'' \<and> peek_char d 1 = CHR ''*''
      \<and> strstr (buf d) (curr d + 2) ''*/'' = Some at
      \<longrightarrow> prsr_next_token d0 out tv =
            Some (0,
                  d\<lparr>flag := 0,
                    line_no := line_no d + int (count_list
                      (take (nat (at - (curr d + 2))) (drop (nat (curr d + 2)) (buf d))) newline),
                    curr := at + 2\<rparr>,
                  out\<lparr>tok_line_no := line_no d, tok_p := curr d, tok_len := at + 2 - curr d,
                      tok_type := TOKEN_COMMENT, lit_next_colon := False\<rparr>,
                  tv_context tv)
          \<and> curr d + 2 \<le> at \<and> prefix ''*/'' (drop (nat at) (buf d))"
  proof (intro allI impI)
    fix d0 d out and tv :: "'a tokenvalue" and at
    assume "skip_ws d0 = Some d \<and> no_flag d \<and> peek_char d 0 = CHR ''/''
      \<and> peek_char d 1 = CHR ''*'' \<and> strstr (buf d) (curr d + 2) ''*/'' = Some at"
    then have a: "skip_ws d0 = Some d" "no_flag d" "peek_char d 0 = CHR ''/''"
      "peek_char d 1 = CHR ''*''" "strstr (buf d) (curr d + 2) ''*/'' = Some at"
      by simp_all
    from byte_at_Some skip_ws_stop [OF a(1)] have c0: "0 \<le> curr d" by blast
    then have s0: "0 \<le> curr d + 2" by simp
    note sa = strstr_at [OF a(5) s0]
    from eat_token_long_comment [OF a(2-5) c0, of tv] a(1)
    have "prsr_next_token d0 out tv =
            Some (0,
                  d\<lparr>flag := 0,
                    line_no := line_no d + int (count_list
                      (take (nat (at - (curr d + 2))) (drop (nat (curr d + 2)) (buf d))) newline),
                    curr := at + 2\<rparr>,
                  out\<lparr>tok_line_no := line_no d, tok_p := curr d, tok_len := at + 2 - curr d,
                      tok_type := TOKEN_COMMENT, lit_next_colon := False\<rparr>,
                  tv_context tv)"
      by (simp add: prsr_next_token_def Let_def type_negative_def)
    with sa(1,4)
    show "prsr_next_token d0 out tv =
            Some (0,
                  d\<lparr>flag := 0,
                    line_no := line_no d + int (count_list
                      (take (nat (at - (curr d + 2))) (drop (nat (curr d + 2)) (buf d))) newline),
                    curr := at + 2\<rparr>,
                  out\<lparr>tok_line_no := line_no d, tok_p := curr d, tok_len := at + 2 - curr d,
                      tok_type := TOKEN_COMMENT, lit_next_colon := False\<rparr>,
                  tv_context tv)
          \<and> curr d + 2 \<le> at \<and> prefix ''*/'' (drop (nat at) (buf d))"
      by simp
  qed
  have s: "token_stream 3 (prsr_init_token (''/* line1'' @ [newline] @ ''line2 */x'' @ [NUL]))
        empty_token (const_oracle 0) =
       Some [(0, tok TOKEN_COMMENT 0 17 1 False), (0, tok TOKEN_LIT 17 1 2 False),
             (0, tok TOKEN_EOF 18 0 2 False)]"
    by code_simp
  show ?thesis by (rule conjI [OF g s])
qed

text \<open>A witness: the first call on \<^verbatim>\<open>/* line1\<close> newline \<^verbatim>\<open>line2 */x\<close>.\<close>

theorem C8_long_comment_witness:
  "skip_ws (prsr_init_token (''/* line1'' @ [newline] @ ''line2 */x'' @ [NUL])) =
     Some (prsr_init_token (''/* line1'' @ [newline] @ ''line2 */x'' @ [NUL]))
   \<and> no_flag (prsr_init_token (''/* line1'' @ [newline] @ ''line2 */x'' @ [NUL]))
   \<and> peek_char (prsr_init_token (''/* line1'' @ [newline] @ ''line2 */x'' @ [NUL])) 0 = CHR ''/''
   \<and> peek_char (prsr_init_token (''/* line1'' @ [newline] @ ''line2 */x'' @ [NUL])) 1 = CHR ''*''
   \<and> strstr (''/* line1'' @ [newline] @ ''line2 */x'' @ [NUL]) 2 ''*/'' = Some 15
   \<and> prsr_next_token (prsr_init_token (''/* line1'' @ [newline] @ ''line2 */x'' @ [NUL]))
        empty_token (const_oracle 0) =
       Some (0, (prsr_init_token (''/* line1'' @ [newline] @ ''line2 */x'' @ [NUL]))
                  \<lparr>curr := 17, line_no := 2\<rparr>,
             tok TOKEN_COMMENT 0 17 1 False, 0)"
proof -
  let ?b = "''/* line1'' @ [newline] @ ''line2 */x'' @ [NUL]"
  let ?d = "prsr_init_token ?b"
  have h1: "skip_ws ?d = Some ?d" by code_simp
  have h2: "no_flag ?d" by code_simp
  have h3: "peek_char ?d 0 = CHR ''/''" by code_simp
  have h4: "peek_char ?d 1 = CHR ''*''" by code_simp
  have h5: "strstr (buf ?d) (curr ?d + 2) ''*/'' = Some 15" by code_simp
  have h6: "strstr ?b 2 ''*/'' = Some 15" by code_simp
  have e: "Some (0 :: int,
                  ?d\<lparr>flag := 0,
                    line_no := line_no ?d + int (count_list
                      (take (nat (15 - (curr ?d + 2))) (drop (nat (curr ?d + 2)) (buf ?d))) newline),
                    curr := 15 + 2\<rparr>,
                  empty_token\<lparr>tok_line_no := line_no ?d, tok_p := curr ?d, tok_len := 15 + 2 - curr ?d,
                      tok_type := TOKEN_COMMENT, lit_next_colon := False\<rparr>,
                  tv_context (const_oracle 0)) =
       Some (0, ?d\<lparr>curr := 17, line_no := 2\<rparr>, tok TOKEN_COMMENT 0 17 1 False, 0)"
    by code_simp
  from C8_long_comment have
    "\<forall>d0 d out (tv :: nat tokenvalue) at.
      skip_ws d0 = Some d \<and> no_flag d \<and> peek_char d 0 = CHR ''/'' \<and> peek_char d 1 = CHR ''*''
      \<and> strstr (buf d) (curr d + 2) ''*/'' = Some at
      \<longrightarrow> prsr_next_token d0 out tv =
            Some (0,
                  d\<lparr>flag := 0,
                    line_no := line_no d + int (count_list
                      (take (nat (at - (curr d + 2))) (drop (nat (curr d + 2)) (buf d))) newline),
                    curr := at + 2\<rparr>,
                  out\<lparr>tok_line_no := line_no d, tok_p := curr d, tok_len := at + 2 - curr d,
                      tok_type := TOKEN_COMMENT, lit_next_colon := False\<rparr>,
                  tv_context tv)
          \<and> curr d + 2 \<le> at \<and> prefix ''*/'' (drop (nat at) (buf d))"
    by (rule conjunct1)
  with h1 h2 h3 h4 h5
  have p: "prsr_next_token ?d empty_token (const_oracle 0) =
            Some (0,
                  ?d\<lparr>flag := 0,
                    line_no := line_no ?d + int (count_list
                      (take (nat (15 - (curr ?d + 2))) (drop (nat (curr ?d + 2)) (buf ?d))) newline),
                    curr := 15 + 2\<rparr>,
                  empty_token\<lparr>tok_line_no := line_no ?d, tok_p := curr ?d, tok_len := 15 + 2 - curr ?d,
                      tok_type := TOKEN_COMMENT, lit_next_colon := False\<rparr>,
                  tv_context (const_oracle 0))"
    by blast
  have "prsr_next_token ?d empty_token (const_oracle 0) =
       Some (0, ?d\<lparr>curr := 17, line_no := 2\<rparr>, tok TOKEN_COMMENT 0 17 1 False, 0)"
    by (rule trans [OF p e])
  with h1 h2 h3 h4 h6 show ?thesis by simp
qed

text \<open>
  The counterexample to C8 as stated: the comment token of that input has length 17, not
  15, and the LIT token \<^verbatim>\<open>x\<close> follows at offset 17.
\<close>

theorem C8_counterexample:
  "prsr_next_token (prsr_init_token (''/* line1'' @ [newline] @ ''line2 */x'' @ [NUL]))
        empty_token (const_oracle 0) =
     Some (0, (prsr_init_token (''/* line1'' @ [newline] @ ''line2 */x'' @ [NUL]))
                \<lparr>curr := 17, line_no := 2\<rparr>,
           tok TOKEN_COMMENT 0 17 1 False, 0)
   \<and> (''/* line1'' @ [newline] @ ''line2 */x'' @ [NUL]) ! 15 = CHR ''*''
   \<and> (''/* line1'' @ [newline] @ ''line2 */x'' @ [NUL]) ! 16 = CHR ''/''
   \<and> (''/* line1'' @ [newline] @ ''line2 */x'' @ [NUL]) ! 17 = CHR ''x''"
  by code_simp

subsection \<open>C3, C6: tokens that run past the end of the buffer\<close>

text \<open>
  Claim C6 does not hold of the code. A literal that ends in an unterminated
  \<^verbatim>\<open>\u{...\<close> escape is given one byte more than the buffer holds: the brace loop stops on
  the terminator and \<^verbatim>\<open>++len\<close> follows without a test. On the 5 bytes \<^verbatim>\<open>\u{12\<close>
  \<^verbatim>\<open>eat_token\<close> stores a LIT of length 6. In an array with a spare byte after the
  terminator the call returns 0 with \<^verbatim>\<open>curr = 6 > len = 5\<close> and a token whose range
  ends at 6; in an array that ends with the terminator \<^verbatim>\<open>lookahead_char\<close> reads outside
  the array. A lone backslash does the same with length 2.
\<close>

theorem C6_literal_overrun:
  "len (prsr_init_token ([backslash] @ ''u{12'' @ [NUL])) = 5
   \<and> eat_token (prsr_init_token ([backslash] @ ''u{12'' @ [NUL])) (const_oracle 0) =
       (0, prsr_init_token ([backslash] @ ''u{12'' @ [NUL]),
        Some \<lparr>eo_len = 6, eo_type = TOKEN_LIT\<rparr>, 0)
   \<and> prsr_next_token (prsr_init_token ([backslash] @ ''u{12'' @ [NUL, NUL])) empty_token
        (const_oracle 0) =
       Some (0, (prsr_init_token ([backslash] @ ''u{12'' @ [NUL, NUL]))\<lparr>curr := 6\<rparr>,
             tok TOKEN_LIT 0 6 1 False, 0)
   \<and> prsr_next_token (prsr_init_token ([backslash] @ ''u{12'' @ [NUL])) empty_token
        (const_oracle 0) = None
   \<and> eat_token (prsr_init_token ([backslash, NUL])) (const_oracle 0) =
       (0, prsr_init_token ([backslash, NUL]), Some \<lparr>eo_len = 2, eo_type = TOKEN_LIT\<rparr>, 0)"
  by code_simp

text \<open>
  Claim C3 does not hold of the code, by the same defect in the regexp and string rules:
  after a backslash, or after the opening slash of a regexp, \<^verbatim>\<open>len\<close> is advanced once
  more when the byte read is the terminator. On the 1-byte input \<^verbatim>\<open>/\<close>, with an oracle
  that answers 0 and a spare byte after the terminator, both calls return 0 and the
  stream is REGEXP(2) EOF(0): the lengths add up to 2, no whitespace is skipped, and the
  buffer length is 1. The same happens for the 2 bytes of a quote and a backslash.
\<close>

theorem C3_regexp_overrun:
  "len (prsr_init_token (''/'' @ [NUL, NUL])) = 1
   \<and> token_stream 2 (prsr_init_token (''/'' @ [NUL, NUL])) empty_token (const_oracle 0) =
       Some [(0, tok TOKEN_REGEXP 0 2 1 False), (0, tok TOKEN_EOF 2 0 1 False)]
   \<and> len (prsr_init_token ([CHR 0x27, backslash, NUL, NUL])) = 2
   \<and> token_stream 2 (prsr_init_token ([CHR 0x27, backslash, NUL, NUL])) empty_token
        (const_oracle 0) =
       Some [(0, tok TOKEN_STRING 0 3 1 False), (0, tok TOKEN_EOF 3 0 1 False)]"
  by code_simp

subsection \<open>C7: line numbers\<close>

text \<open>
  Claim C7 does not hold of the code. A long comment that is not closed is consumed to
  the end of the buffer before the newline count is reached (\<^verbatim>\<open>at == NULL\<close> returns
  first), so on \<^verbatim>\<open>/*\<close> followed by a newline the EOF token at offset 3 is reported at
  line 1, with one newline before it. A backslash in a literal skips the next byte
  uncounted: on \<^verbatim>\<open>a\\<close> newline \<^verbatim>\<open>b c\<close> the token \<^verbatim>\<open>c\<close> at offset 5 is reported at
  line 1, with one newline before it.
\<close>

theorem C7_line_numbers:
  "token_stream 2 (prsr_init_token (''/*'' @ [newline, NUL])) empty_token (const_oracle 0) =
     Some [(0, tok TOKEN_COMMENT 0 3 1 False), (0, tok TOKEN_EOF 3 0 1 False)]
   \<and> 1 + int (count_list (take 3 (''/*'' @ [newline, NUL])) newline) = 2
   \<and> token_stream 3 (prsr_init_token (''a'' @ [backslash, newline] @ ''b c'' @ [NUL])) empty_token
        (const_oracle 0) =
       Some [(0, tok TOKEN_LIT 0 4 1 False), (0, tok TOKEN_LIT 5 1 1 False),
             (0, tok TOKEN_EOF 6 0 1 False)]
   \<and> 1 + int (count_list (take 5 (''a'' @ [backslash, newline] @ ''b c'' @ [NUL])) newline) = 2"
  by code_simp

text \<open>
  X1, the part of C7 that holds of every call that returns: the line number stored in
  the token slot is at least the state's \<^verbatim>\<open>line_no\<close> before the call and at most its
  \<^verbatim>\<open>line_no\<close> after it, so the line numbers of successive calls never decrease.
\<close>

theorem line_no_monotone:
  assumes "prsr_next_token d out tv = Some (r, d', out', ctx')"
  shows "line_no d \<le> tok_line_no out' \<and> tok_line_no out' \<le> line_no d'"
proof -
  from assms obtain d1 where sk: "skip_ws d = Some d1"
    by (cases "skip_ws d") (auto simp: prsr_next_token_def)
  obtain r2 d2 eo c2 where et: "eat_token d1 tv = (r2, d2, eo, c2)"
    by (cases "eat_token d1 tv") auto
  from skip_ws_spec [OF sk] have "line_no d \<le> line_no d1" by (cases d) auto
  moreover from assms sk et have "tok_line_no out' = line_no d1 \<and> line_no d' = line_no d2"
    by (auto simp: prsr_next_token_def Let_def split: if_splits option.splits)
  moreover note eat_token_line [OF et]
  ultimately show ?thesis by simp
qed

text \<open>A witness: the first call on \<^verbatim>\<open>/* line1\<close> newline \<^verbatim>\<open>line2 */x\<close>.\<close>

theorem line_no_monotone_witness:
  "prsr_next_token (prsr_init_token (''/* line1'' @ [newline] @ ''line2 */x'' @ [NUL]))
        empty_token (const_oracle 0) =
     Some (0, (prsr_init_token (''/* line1'' @ [newline] @ ''line2 */x'' @ [NUL]))
                \<lparr>curr := 17, line_no := 2\<rparr>,
           tok TOKEN_COMMENT 0 17 1 False, 0)
   \<and> line_no (prsr_init_token (''/* line1'' @ [newline] @ ''line2 */x'' @ [NUL]))
       \<le> tok_line_no (tok TOKEN_COMMENT 0 17 1 False)
   \<and> tok_line_no (tok TOKEN_COMMENT 0 17 1 False)
       \<le> line_no ((prsr_init_token (''/* line1'' @ [newline] @ ''line2 */x'' @ [NUL]))
                \<lparr>curr := 17, line_no := 2\<rparr>)"
proof -
  have h: "prsr_next_token (prsr_init_token (''/* line1'' @ [newline] @ ''line2 */x'' @ [NUL]))
        empty_token (const_oracle 0) =
     Some (0, (prsr_init_token (''/* line1'' @ [newline] @ ''line2 */x'' @ [NUL]))
                \<lparr>curr := 17, line_no := 2\<rparr>,
           tok TOKEN_COMMENT 0 17 1 False, 0)"
    by code_simp
  from line_no_monotone [OF h] h show ?thesis by simp
qed

subsection \<open>C9: no rule matched\<close>

text \<open>
  Claim C9 does not hold of the code at offset 0. When no rule matches,
  \<^verbatim>\<open>prsr_next_token\<close> returns \<^verbatim>\<open>d->curr\<close> (\<^verbatim>\<open>failed at this position\<close>) and stores
  nothing but the line number. On the input \<^verbatim>\<open>#\<close> the failing offset is 0 and the call
  returns 0, the value of a successful call (as on the input \<^verbatim>\<open>a\<close>); the cursor does not
  move, so every further call does the same. On \<^verbatim>\<open>a #\<close> the second call returns 2.
\<close>

theorem C9_no_rule_at_offset_zero:
  "prsr_next_token (prsr_init_token (''#'' @ [NUL])) empty_token (const_oracle 0) =
     Some (0, prsr_init_token (''#'' @ [NUL]), empty_token\<lparr>tok_line_no := 1\<rparr>, 0)
   \<and> eat_token (prsr_init_token (''#'' @ [NUL])) (const_oracle 0) =
       (0, prsr_init_token (''#'' @ [NUL]), Some \<lparr>eo_len = 0, eo_type = TOKEN_UNKNOWN\<rparr>, 0)
   \<and> prsr_next_token (prsr_init_token (''a'' @ [NUL])) empty_token (const_oracle 0) =
       Some (0, (prsr_init_token (''a'' @ [NUL]))\<lparr>curr := 1\<rparr>, tok TOKEN_LIT 0 1 1 False, 0)
   \<and> token_stream 2 (prsr_init_token (''a #'' @ [NUL])) empty_token (const_oracle 0) =
       Some [(0, tok TOKEN_LIT 0 1 1 False), (2, tok TOKEN_LIT 0 1 1 False)]"
  by code_simp

end
